theory Spec2Isabelle
  imports Main "HOL-Library.Sublist"
begin

section \<open>The skip list of skipmap.go\<close>

subsection \<open>Data model\<close>

text \<open>
  A Go pointer to a node is an address (a natural number) or nil; the nodes live in a
  heap, a total function from addresses to nodes, since every non-nil pointer of a Go
  program points to an object. Allocation takes the next unused address \<open>fresh\<close>.
  The two run-time panics the code could raise are values.
\<close>

datatype panic = NilDereference | IndexOutOfRange

type_synonym ptr = "nat option"

record ('k, 'v) node =
  key :: 'k
  val :: 'v
  forward :: "ptr list"

text \<open>
  The struct \<open>SkipMap\<close>. The field \<open>length\<close> is \<open>length_m\<close> here. The lock
  \<open>mu\<close> is left out (every operation is modelled as one atomic step), and so is
  \<open>probability\<close>: each evaluation of \<open>rand.Float32() < s.probability\<close> is a coin flip
  whose outcome the caller of \<open>Put\<close> supplies.
\<close>

record ('k, 'v) SkipMap =
  heap :: "nat \<Rightarrow> ('k, 'v) node"
  fresh :: nat
  header :: nat
  maxLevel :: nat
  level :: nat
  length_m :: int
  comparator :: "'k \<Rightarrow> 'k \<Rightarrow> int"
  updateCache :: "ptr list"

definition DefaultMaxLevel :: nat where
  "DefaultMaxLevel = 32"

text \<open>
  A computation returns \<open>Some (Inr x)\<close>, panics with \<open>Some (Inl e)\<close>, or does not
  return at all (\<open>None\<close>).
\<close>

type_synonym 'a outcome = "(panic + 'a) option"

definition bindO :: "'a outcome \<Rightarrow> ('a \<Rightarrow> 'b outcome) \<Rightarrow> 'b outcome" where
  "bindO m f = (case m of None \<Rightarrow> None | Some (Inl e) \<Rightarrow> Some (Inl e) | Some (Inr x) \<Rightarrow> f x)"

definition index :: "'a list \<Rightarrow> nat \<Rightarrow> 'a outcome" where
  "index xs i = (if i < length xs then Some (Inr (xs ! i)) else Some (Inl IndexOutOfRange))"

definition deref :: "ptr \<Rightarrow> nat outcome" where
  "deref p = (case p of None \<Rightarrow> Some (Inl NilDereference) | Some a \<Rightarrow> Some (Inr a))"

definition set_forward :: "(nat \<Rightarrow> ('k, 'v) node) \<Rightarrow> nat \<Rightarrow> nat \<Rightarrow> ptr \<Rightarrow> (nat \<Rightarrow> ('k, 'v) node) outcome" where
  "set_forward h a i p =
     (if i < length (forward (h a))
      then Some (Inr (h(a := (h a)\<lparr>forward := (forward (h a))[i := p]\<rparr>)))
      else Some (Inl IndexOutOfRange))"

subsection \<open>Construction\<close>

text \<open>
  \<open>zk\<close> and \<open>zv\<close> are the zero values of the key and value types, which the header
  node holds.
\<close>

definition NewWithComparator :: "('k \<Rightarrow> 'k \<Rightarrow> int) \<Rightarrow> 'k \<Rightarrow> 'v \<Rightarrow> ('k, 'v) SkipMap" where
  "NewWithComparator cmp zk zv =
     \<lparr>heap = (\<lambda>_. \<lparr>key = zk, val = zv, forward = replicate DefaultMaxLevel None\<rparr>),
      fresh = 1,
      header = 0,
      maxLevel = DefaultMaxLevel,
      level = 0,
      length_m = 0,
      comparator = cmp,
      updateCache = replicate DefaultMaxLevel None\<rparr>"

definition defaultComparator :: "'k::linorder \<Rightarrow> 'k \<Rightarrow> int" where
  "defaultComparator a b = (if a < b then - 1 else if a > b then 1 else 0)"

definition New :: "'k::linorder \<Rightarrow> 'v \<Rightarrow> ('k, 'v) SkipMap" where
  "New zk zv = NewWithComparator defaultComparator zk zv"

subsection \<open>Level assignment\<close>

text \<open>
  \<open>flips n\<close> is the outcome of the \<open>n\<close>-th evaluation of
  \<open>rand.Float32() < s.probability\<close> in one call; the loop makes one per iteration, so
  the flip read when the counter is \<open>lvl\<close> is \<open>flips lvl\<close>.
\<close>

function randomLevel_loop :: "(nat \<Rightarrow> bool) \<Rightarrow> nat \<Rightarrow> nat \<Rightarrow> nat" where
  "randomLevel_loop flips maxl lvl =
     (if flips lvl \<and> int lvl < int maxl - 1 then randomLevel_loop flips maxl (lvl + 1) else lvl)"
  by pat_completeness auto
termination
  by (relation "measure (\<lambda>(flips, maxl, lvl). maxl - lvl)") auto

definition randomLevel :: "('k, 'v) SkipMap \<Rightarrow> (nat \<Rightarrow> bool) \<Rightarrow> nat" where
  "randomLevel s flips = randomLevel_loop flips (maxLevel s) 0"

subsection \<open>Search\<close>

text \<open>
  The inner loop of every search:
  \<open>for current.forward[i] != nil && cmp(current.forward[i].key, key) < 0\<close>.
\<close>

partial_function (option) advance ::
  "(nat \<Rightarrow> ('k, 'v) node) \<Rightarrow> ('k \<Rightarrow> 'k \<Rightarrow> int) \<Rightarrow> 'k \<Rightarrow> nat \<Rightarrow> nat \<Rightarrow> nat outcome" where
  "advance h cmp k i current =
     (if i < length (forward (h current)) then
        (case forward (h current) ! i of
           None \<Rightarrow> Some (Inr current)
         | Some nx \<Rightarrow> if cmp (key (h nx)) k < 0 then advance h cmp k i nx else Some (Inr current))
      else Some (Inl IndexOutOfRange))"

declare advance.simps [code]

text \<open>The outer loop \<open>for i := s.level; i >= 0; i--\<close> of Get, Range and RangeFunc.\<close>

fun descend ::
  "(nat \<Rightarrow> ('k, 'v) node) \<Rightarrow> ('k \<Rightarrow> 'k \<Rightarrow> int) \<Rightarrow> 'k \<Rightarrow> nat \<Rightarrow> nat \<Rightarrow> nat outcome" where
  "descend h cmp k 0 current = advance h cmp k 0 current"
| "descend h cmp k (Suc i) current =
     bindO (advance h cmp k (Suc i) current) (\<lambda>c. descend h cmp k i c)"

text \<open>The same loop in Put and Remove, which also stores \<open>update[i] = current\<close>.\<close>

definition set_update :: "ptr list \<Rightarrow> nat \<Rightarrow> nat \<Rightarrow> ptr list outcome" where
  "set_update update i c =
     (if i < length update then Some (Inr (update[i := Some c])) else Some (Inl IndexOutOfRange))"

fun descend_update ::
  "(nat \<Rightarrow> ('k, 'v) node) \<Rightarrow> ('k \<Rightarrow> 'k \<Rightarrow> int) \<Rightarrow> 'k \<Rightarrow> nat \<Rightarrow> nat \<Rightarrow> ptr list
     \<Rightarrow> (nat \<times> ptr list) outcome" where
  "descend_update h cmp k 0 current update =
     bindO (advance h cmp k 0 current) (\<lambda>c.
     bindO (set_update update 0 c) (\<lambda>u. Some (Inr (c, u))))"
| "descend_update h cmp k (Suc i) current update =
     bindO (advance h cmp k (Suc i) current) (\<lambda>c.
     bindO (set_update update (Suc i) c) (\<lambda>u. descend_update h cmp k i c u))"

subsection \<open>Put\<close>

text \<open>\<open>for i := s.level + 1; i <= newLevel; i++ { update[i] = s.header }\<close>\<close>

function raise_update :: "ptr list \<Rightarrow> nat \<Rightarrow> nat \<Rightarrow> nat \<Rightarrow> ptr list outcome" where
  "raise_update update hdr i newLevel =
     (if i \<le> newLevel
      then bindO (set_update update i hdr) (\<lambda>u. raise_update u hdr (i + 1) newLevel)
      else Some (Inr update))"
  by pat_completeness auto
termination
  by (relation "measure (\<lambda>(update, hdr, i, newLevel). newLevel + 1 - i)") auto

text \<open>
  \<open>for i := 0; i <= newLevel; i++ {
     newNode.forward[i] = update[i].forward[i]; update[i].forward[i] = newNode }\<close>
\<close>

function splice_node ::
  "(nat \<Rightarrow> ('k, 'v) node) \<Rightarrow> ptr list \<Rightarrow> nat \<Rightarrow> nat \<Rightarrow> nat \<Rightarrow> (nat \<Rightarrow> ('k, 'v) node) outcome" where
  "splice_node h update newNode i newLevel =
     (if i \<le> newLevel then
        bindO (index update i) (\<lambda>p.
        bindO (deref p) (\<lambda>u.
        bindO (index (forward (h u)) i) (\<lambda>nx.
        bindO (set_forward h newNode i nx) (\<lambda>h1.
        bindO (set_forward h1 u i (Some newNode)) (\<lambda>h2.
        splice_node h2 update newNode (i + 1) newLevel)))))
      else Some (Inr h))"
  by pat_completeness auto
termination
  by (relation "measure (\<lambda>(h, update, newNode, i, newLevel). newLevel + 1 - i)") auto

definition Put :: "'k \<Rightarrow> 'v \<Rightarrow> (nat \<Rightarrow> bool) \<Rightarrow> ('k, 'v) SkipMap \<Rightarrow> ('k, 'v) SkipMap outcome" where
  "Put k v flips s =
     bindO (descend_update (heap s) (comparator s) k (level s) (header s) (updateCache s))
       (\<lambda>(current, update).
     bindO (index (forward (heap s current)) 0) (\<lambda>nx.
     if nx \<noteq> None \<and> comparator s (key (heap s (the nx))) k = 0
     then Some (Inr (s\<lparr>heap := (heap s)(the nx := (heap s (the nx))\<lparr>val := v\<rparr>),
                        updateCache := update\<rparr>))
     else
       let newLevel = randomLevel s flips in
       bindO (if newLevel > level s
              then raise_update update (header s) (level s + 1) newLevel
              else Some (Inr update)) (\<lambda>update'.
       let level' = (if newLevel > level s then newLevel else level s);
           newNode = fresh s;
           h1 = (heap s)(newNode := \<lparr>key = k, val = v, forward = replicate (newLevel + 1) None\<rparr>)
       in
       bindO (splice_node h1 update' newNode 0 newLevel) (\<lambda>h2.
       Some (Inr (s\<lparr>heap := h2, fresh := fresh s + 1, level := level',
                     length_m := length_m s + 1, updateCache := update'\<rparr>))))))"

subsection \<open>Get\<close>

text \<open>
  The Go results \<open>(value, true)\<close> and \<open>(zero, false)\<close> are \<open>Some value\<close> and
  \<open>None\<close>.
\<close>

definition Get :: "'k \<Rightarrow> ('k, 'v) SkipMap \<Rightarrow> 'v option outcome" where
  "Get k s =
     bindO (descend (heap s) (comparator s) k (level s) (header s)) (\<lambda>current.
     bindO (index (forward (heap s current)) 0) (\<lambda>nx.
     if nx \<noteq> None \<and> comparator s (key (heap s (the nx))) k = 0
     then Some (Inr (Some (val (heap s (the nx)))))
     else Some (Inr None)))"

subsection \<open>Remove\<close>

text \<open>
  \<open>for i := 0; i <= s.level; i++ {
     if update[i].forward[i] != current { break }
     update[i].forward[i] = current.forward[i] }\<close>
\<close>

function unlink ::
  "(nat \<Rightarrow> ('k, 'v) node) \<Rightarrow> ptr list \<Rightarrow> nat \<Rightarrow> nat \<Rightarrow> nat \<Rightarrow> (nat \<Rightarrow> ('k, 'v) node) outcome" where
  "unlink h update current i lvl =
     (if i \<le> lvl then
        bindO (index update i) (\<lambda>p.
        bindO (deref p) (\<lambda>u.
        bindO (index (forward (h u)) i) (\<lambda>nx.
        if nx \<noteq> Some current then Some (Inr h)
        else
          bindO (index (forward (h current)) i) (\<lambda>nn.
          bindO (set_forward h u i nn) (\<lambda>h1.
          unlink h1 update current (i + 1) lvl)))))
      else Some (Inr h))"
  by pat_completeness auto
termination
  by (relation "measure (\<lambda>(h, update, current, i, lvl). lvl + 1 - i)") auto

text \<open>\<open>for s.level > 0 && s.header.forward[s.level] == nil { s.level-- }\<close>\<close>

fun lower_level :: "(nat \<Rightarrow> ('k, 'v) node) \<Rightarrow> nat \<Rightarrow> nat \<Rightarrow> nat outcome" where
  "lower_level h hdr 0 = Some (Inr 0)"
| "lower_level h hdr (Suc l) =
     bindO (index (forward (h hdr)) (Suc l)) (\<lambda>p.
     if p = None then lower_level h hdr l else Some (Inr (Suc l)))"

definition Remove :: "'k \<Rightarrow> ('k, 'v) SkipMap \<Rightarrow> (bool \<times> ('k, 'v) SkipMap) outcome" where
  "Remove k s =
     bindO (descend_update (heap s) (comparator s) k (level s) (header s) (updateCache s))
       (\<lambda>(current, update).
     bindO (index (forward (heap s current)) 0) (\<lambda>nx.
     if nx \<noteq> None \<and> comparator s (key (heap s (the nx))) k = 0
     then
       bindO (unlink (heap s) update (the nx) 0 (level s)) (\<lambda>h1.
       bindO (lower_level h1 (header s) (level s)) (\<lambda>level'.
       Some (Inr (True, s\<lparr>heap := h1, level := level', length_m := length_m s - 1,
                            updateCache := update\<rparr>))))
     else Some (Inr (False, s\<lparr>updateCache := update\<rparr>))))"

subsection \<open>Range and RangeFunc\<close>

text \<open>
  \<open>for current != nil && cmp(current.key, end) <= 0 {
     result = append(result, current.value); current = current.forward[0] }\<close>
\<close>

partial_function (option) range_loop ::
  "(nat \<Rightarrow> ('k, 'v) node) \<Rightarrow> ('k \<Rightarrow> 'k \<Rightarrow> int) \<Rightarrow> 'k \<Rightarrow> ptr \<Rightarrow> 'v list \<Rightarrow> 'v list outcome" where
  "range_loop h cmp e current result =
     (case current of
        None \<Rightarrow> Some (Inr result)
      | Some c \<Rightarrow>
          if cmp (key (h c)) e \<le> 0 then
            (if 0 < length (forward (h c))
             then range_loop h cmp e (forward (h c) ! 0) (result @ [val (h c)])
             else Some (Inl IndexOutOfRange))
          else Some (Inr result))"

declare range_loop.simps [code]

definition Range_m :: "'k \<Rightarrow> 'k \<Rightarrow> ('k, 'v) SkipMap \<Rightarrow> 'v list outcome" where
  "Range_m start e s =
     bindO (descend (heap s) (comparator s) start (level s) (header s)) (\<lambda>current.
     bindO (index (forward (heap s current)) 0) (\<lambda>nx.
     range_loop (heap s) (comparator s) e nx []))"

text \<open>
  The visitor \<open>f\<close> is a Go closure: besides its boolean result it may change what it
  captured. It is a function on a visitor state \<open>'st\<close>, and RangeFunc returns the
  visitor state after the last call.
\<close>

partial_function (option) rangefunc_loop ::
  "(nat \<Rightarrow> ('k, 'v) node) \<Rightarrow> ('k \<Rightarrow> 'k \<Rightarrow> int) \<Rightarrow> 'k \<Rightarrow> ('k \<Rightarrow> 'v \<Rightarrow> 'st \<Rightarrow> bool \<times> 'st)
     \<Rightarrow> ptr \<Rightarrow> 'st \<Rightarrow> 'st outcome" where
  "rangefunc_loop h cmp e f current st =
     (case current of
        None \<Rightarrow> Some (Inr st)
      | Some c \<Rightarrow>
          if cmp (key (h c)) e \<le> 0 then
            (if \<not> fst (f (key (h c)) (val (h c)) st)
             then Some (Inr (snd (f (key (h c)) (val (h c)) st)))
             else if 0 < length (forward (h c))
             then rangefunc_loop h cmp e f (forward (h c) ! 0) (snd (f (key (h c)) (val (h c)) st))
             else Some (Inl IndexOutOfRange))
          else Some (Inr st))"

declare rangefunc_loop.simps [code]

definition RangeFunc ::
  "'k \<Rightarrow> 'k \<Rightarrow> ('k \<Rightarrow> 'v \<Rightarrow> 'st \<Rightarrow> bool \<times> 'st) \<Rightarrow> 'st \<Rightarrow> ('k, 'v) SkipMap \<Rightarrow> 'st outcome" where
  "RangeFunc start e f st s =
     bindO (descend (heap s) (comparator s) start (level s) (header s)) (\<lambda>current.
     bindO (index (forward (heap s current)) 0) (\<lambda>nx.
     rangefunc_loop (heap s) (comparator s) e f nx st))"

subsection \<open>Min, Max, Len, IsEmpty\<close>

definition Min_m :: "('k, 'v) SkipMap \<Rightarrow> ('k \<times> 'v) option outcome" where
  "Min_m s =
     (if length_m s = 0 then Some (Inr None)
      else
        bindO (index (forward (heap s (header s))) 0) (\<lambda>p.
        bindO (deref p) (\<lambda>minNode.
        Some (Inr (Some (key (heap s minNode), val (heap s minNode)))))))"

text \<open>\<open>for current.forward[i] != nil { current = current.forward[i] }\<close>\<close>

partial_function (option) last_at :: "(nat \<Rightarrow> ('k, 'v) node) \<Rightarrow> nat \<Rightarrow> nat \<Rightarrow> nat outcome" where
  "last_at h i current =
     (if i < length (forward (h current)) then
        (case forward (h current) ! i of
           None \<Rightarrow> Some (Inr current)
         | Some nx \<Rightarrow> last_at h i nx)
      else Some (Inl IndexOutOfRange))"

declare last_at.simps [code]

fun descend_last :: "(nat \<Rightarrow> ('k, 'v) node) \<Rightarrow> nat \<Rightarrow> nat \<Rightarrow> nat outcome" where
  "descend_last h 0 current = last_at h 0 current"
| "descend_last h (Suc i) current = bindO (last_at h (Suc i) current) (\<lambda>c. descend_last h i c)"

definition Max_m :: "('k, 'v) SkipMap \<Rightarrow> ('k \<times> 'v) option outcome" where
  "Max_m s =
     (if length_m s = 0 then Some (Inr None)
      else
        bindO (descend_last (heap s) (level s) (header s)) (\<lambda>current.
        Some (Inr (Some (key (heap s current), val (heap s current))))))"

definition Len :: "('k, 'v) SkipMap \<Rightarrow> int" where
  "Len s = length_m s"

definition IsEmpty :: "('k, 'v) SkipMap \<Rightarrow> bool" where
  "IsEmpty s = (length_m s = 0)"

subsection \<open>Sequences of operations\<close>

datatype ('k, 'v) operation = OpPut 'k 'v "nat \<Rightarrow> bool" | OpRemove 'k

fun apply_op :: "('k, 'v) operation \<Rightarrow> ('k, 'v) SkipMap \<Rightarrow> ('k, 'v) SkipMap outcome" where
  "apply_op (OpPut k v flips) s = Put k v flips s"
| "apply_op (OpRemove k) s = bindO (Remove k s) (\<lambda>(b, s'). Some (Inr s'))"

fun run :: "('k, 'v) operation list \<Rightarrow> ('k, 'v) SkipMap \<Rightarrow> ('k, 'v) SkipMap outcome" where
  "run [] s = Some (Inr s)"
| "run (x # xs) s = bindO (apply_op x s) (run xs)"

subsection \<open>Well-formed states\<close>

text \<open>
  The comparator contract of the constructor: a three-way comparison of a strict total
  order on the keys.
\<close>

definition strict_total_order :: "('k \<Rightarrow> 'k \<Rightarrow> int) \<Rightarrow> bool" where
  "strict_total_order cmp =
     ((\<forall>a b. (cmp a b = 0) = (a = b)) \<and>
      (\<forall>a b. (cmp a b < 0) = (cmp b a > 0)) \<and>
      (\<forall>a b c. cmp a b < 0 \<and> cmp b c < 0 \<longrightarrow> cmp a c < 0))"

definition height :: "(nat \<Rightarrow> ('k, 'v) node) \<Rightarrow> nat \<Rightarrow> nat" where
  "height h a = length (forward (h a))"

text \<open>
  \<open>linked h i p as\<close>: following the level-\<open>i\<close> forward links from the pointer \<open>p\<close>
  visits exactly the nodes \<open>as\<close>, in this order, and then reaches nil.
\<close>

fun linked :: "(nat \<Rightarrow> ('k, 'v) node) \<Rightarrow> nat \<Rightarrow> ptr \<Rightarrow> nat list \<Rightarrow> bool" where
  "linked h i p [] = (p = None)"
| "linked h i p (a # as) = (p = Some a \<and> i < height h a \<and> linked h i (forward (h a) ! i) as)"

definition at_level :: "(nat \<Rightarrow> ('k, 'v) node) \<Rightarrow> nat \<Rightarrow> nat list \<Rightarrow> nat list" where
  "at_level h i as = filter (\<lambda>a. i < height h a) as"

definition entries :: "(nat \<Rightarrow> ('k, 'v) node) \<Rightarrow> nat list \<Rightarrow> ('k \<times> 'v) list" where
  "entries h as = map (\<lambda>a. (key (h a), val (h a))) as"

text \<open>
  \<open>wf_map s as\<close>: the state \<open>s\<close> is a skip list whose nodes, in level-0 order, are
  \<open>as\<close>.
\<close>

definition wf_map :: "('k, 'v) SkipMap \<Rightarrow> nat list \<Rightarrow> bool" where
  "wf_map s as =
     (strict_total_order (comparator s) \<and>
      maxLevel s = DefaultMaxLevel \<and>
      height (heap s) (header s) = maxLevel s \<and>
      length (updateCache s) = maxLevel s \<and>
      level s < maxLevel s \<and>
      header s \<notin> set as \<and> header s < fresh s \<and> (\<forall>a \<in> set as. a < fresh s) \<and>
      (\<forall>a \<in> set as. 0 < height (heap s) a \<and> height (heap s) a \<le> level s + 1) \<and>
      sorted_wrt (\<lambda>a b. comparator s (key (heap s a)) (key (heap s b)) < 0) as \<and>
      (\<forall>i < maxLevel s. linked (heap s) i (forward (heap s (header s)) ! i) (at_level (heap s) i as)) \<and>
      (level s = 0 \<or> forward (heap s (header s)) ! level s \<noteq> None) \<and>
      length_m s = int (length as))"

text \<open>The last node of \<open>ls\<close> that takes part in level \<open>j\<close>, or the header.\<close>

definition pred_at :: "(nat \<Rightarrow> ('k, 'v) node) \<Rightarrow> nat \<Rightarrow> nat list \<Rightarrow> nat \<Rightarrow> nat" where
  "pred_at h hdr ls j = last (hdr # at_level h j ls)"

text \<open>The nodes before a key, and the nodes from it on.\<close>

definition split_at ::
  "(nat \<Rightarrow> ('k, 'v) node) \<Rightarrow> ('k \<Rightarrow> 'k \<Rightarrow> int) \<Rightarrow> 'k \<Rightarrow> nat list \<Rightarrow> nat list \<Rightarrow> nat list \<Rightarrow> bool" where
  "split_at h cmp k as ls rs =
     (as = ls @ rs \<and> (\<forall>a \<in> set ls. cmp (key (h a)) k < 0)
      \<and> (\<forall>a \<in> set rs. \<not> cmp (key (h a)) k < 0)
      \<and> (\<forall>a \<in> set (tl rs). cmp (key (h a)) k > 0))"

subsection \<open>The specification's view of the map\<close>

text \<open>
  What the specification says a sequence of operations leaves in the map, as a finite
  map from keys to values: Put stores or overwrites, Remove deletes. This definition
  follows the specification, not the code; the theorems compare the two.
\<close>

fun spec_map :: "('k, 'v) operation list \<Rightarrow> ('k \<rightharpoonup> 'v) \<Rightarrow> ('k \<rightharpoonup> 'v)" where
  "spec_map [] m = m"
| "spec_map (OpPut k v flips # xs) m = spec_map xs (m(k \<mapsto> v))"
| "spec_map (OpRemove k # xs) m = spec_map xs (m(k := None))"

text \<open>
  What the specification says RangeFunc does with the in-range pairs: the visitor is
  called on each in turn, until it returns false.
\<close>

fun visit :: "('k \<Rightarrow> 'v \<Rightarrow> 'st \<Rightarrow> bool \<times> 'st) \<Rightarrow> ('k \<times> 'v) list \<Rightarrow> 'st \<Rightarrow> 'st" where
  "visit f [] st = st"
| "visit f ((k, v) # ps) st =
     (if fst (f k v st) then visit f ps (snd (f k v st)) else snd (f k v st))"

text \<open>The test's map: the keys 0..9, each put once.\<close>

definition ops_0_to_9 :: "(int, string) operation list" where
  "ops_0_to_9 = map (\<lambda>i. OpPut i ''val'' (\<lambda>n. int n < i mod 3)) [0..9]"

subsection \<open>Counting, and the level field, as the specification words them\<close>

text \<open>
  The keys passed to Put in a sequence of operations, and the keys whose Remove
  returned true when the sequence runs from the state \<open>s\<close>.
\<close>

fun put_keys :: "('k, 'v) operation list \<Rightarrow> 'k list" where
  "put_keys [] = []"
| "put_keys (OpPut k v flips # xs) = k # put_keys xs"
| "put_keys (OpRemove k # xs) = put_keys xs"

fun removed_keys :: "('k, 'v) operation list \<Rightarrow> ('k, 'v) SkipMap \<Rightarrow> 'k list" where
  "removed_keys [] s = []"
| "removed_keys (OpPut k v flips # xs) s =
     (case Put k v flips s of Some (Inr s') \<Rightarrow> removed_keys xs s' | _ \<Rightarrow> [])"
| "removed_keys (OpRemove k # xs) s =
     (case Remove k s of
        Some (Inr (b, s')) \<Rightarrow> (if b then [k] else []) @ removed_keys xs s'
      | _ \<Rightarrow> [])"

text \<open>The number of Put calls whose key Get reports not-found just before the call.\<close>

fun fresh_puts :: "('k, 'v) operation list \<Rightarrow> ('k, 'v) SkipMap \<Rightarrow> nat" where
  "fresh_puts [] s = 0"
| "fresh_puts (OpPut k v flips # xs) s =
     (if Get k s = Some (Inr None) then 1 else 0)
     + (case Put k v flips s of Some (Inr s') \<Rightarrow> fresh_puts xs s' | _ \<Rightarrow> 0)"
| "fresh_puts (OpRemove k # xs) s =
     (case Remove k s of Some (Inr (b, s')) \<Rightarrow> fresh_puts xs s' | _ \<Rightarrow> 0)"

definition len_after :: "('k, 'v) operation list \<Rightarrow> ('k, 'v) SkipMap \<Rightarrow> int outcome" where
  "len_after ops s = bindO (run ops s) (\<lambda>s'. Some (Inr (Len s')))"

text \<open>Coin flips that all fail: every new node gets level 0.\<close>

definition tails :: "nat \<Rightarrow> bool" where
  "tails n = False"

text \<open>
  \<open>level\<close> is the highest index at which the header's forward reference is non-null.
\<close>

definition level_is_top :: "('k, 'v) SkipMap \<Rightarrow> bool" where
  "level_is_top s =
     (forward (heap s (header s)) ! level s \<noteq> None \<and>
      (\<forall>i. level s < i \<and> i < maxLevel s \<longrightarrow> forward (heap s (header s)) ! i = None))"

section \<open>Properties of the loops and of the operations\<close>

lemma bindO_simps [simp]:
  "bindO None f = None"
  "bindO (Some (Inl e)) f = Some (Inl e)"
  "bindO (Some (Inr x)) f = f x"
  by (simp_all add: bindO_def)

lemma bindO_eq_Some_Inr:
  "(bindO m f = Some (Inr y)) = (\<exists>x. m = Some (Inr x) \<and> f x = Some (Inr y))"
  by (auto simp: bindO_def split: option.splits sum.splits)

lemma chain_heights: "linked h i p xs \<Longrightarrow> a \<in> set xs \<Longrightarrow> i < height h a"
  by (induction xs arbitrary: p) auto

lemma chain_cong:
  "linked h i p xs \<Longrightarrow> \<forall>a \<in> set xs. forward (h' a) ! i = forward (h a) ! i \<and> height h' a = height h a
    \<Longrightarrow> linked h' i p xs"
  by (induction xs arbitrary: p) auto

lemma chain_tail:
  "linked h i p (xs @ a # ys) \<Longrightarrow> linked h i (forward (h a) ! i) ys \<and> i < height h a"
  by (induction xs arbitrary: p) auto

lemma chain_unique: "linked h i p xs \<Longrightarrow> linked h i p ys \<Longrightarrow> xs = ys"
proof (induction xs arbitrary: p ys)
  case Nil
  then show ?case by (cases ys) auto
next
  case (Cons a xs)
  then show ?case by (cases ys) auto
qed

lemma advance_chain:
  assumes "linked h i (forward (h c) ! i) (xs @ ys)"
    and "i < height h c"
    and "\<forall>a \<in> set xs. cmp (key (h a)) k < 0"
    and "ys \<noteq> [] \<longrightarrow> \<not> cmp (key (h (hd ys))) k < 0"
  shows "advance h cmp k i c = Some (Inr (last (c # xs)))"
  using assms
proof (induction xs arbitrary: c)
  case Nil
  then show ?case
    by (cases ys) (auto simp: advance.simps [of h cmp k i c] height_def)
next
  case (Cons x xs)
  from Cons.prems have nx: "forward (h c) ! i = Some x" and hx: "i < height h x"
    and ch: "linked h i (forward (h x) ! i) (xs @ ys)" and kx: "cmp (key (h x)) k < 0"
    by auto
  have "advance h cmp k i x = Some (Inr (last (x # xs)))"
    using Cons.IH [OF ch hx] Cons.prems by auto
  then show ?case
    using nx kx Cons.prems(2) by (simp add: advance.simps [of h cmp k i c] height_def)
qed

lemma last_at_chain:
  assumes "linked h i (forward (h c) ! i) xs" and "i < height h c"
  shows "last_at h i c = Some (Inr (last (c # xs)))"
  using assms
proof (induction xs arbitrary: c)
  case Nil
  then show ?case by (auto simp: last_at.simps [of h i c] height_def)
next
  case (Cons x xs)
  from Cons.prems have nx: "forward (h c) ! i = Some x" and hx: "i < height h x"
    and ch: "linked h i (forward (h x) ! i) xs"
    by auto
  have "last_at h i x = Some (Inr (last (x # xs)))"
    using Cons.IH [OF ch hx] by auto
  then show ?case
    using nx Cons.prems(2) by (simp add: last_at.simps [of h i c] height_def)
qed

lemma filter_last_split:
  "filter P xs \<noteq> [] \<Longrightarrow>
     \<exists>l1 l2. xs = l1 @ last (filter P xs) # l2 \<and> filter P l2 = [] \<and> P (last (filter P xs))"
proof (induction xs rule: rev_induct)
  case Nil
  then show ?case by simp
next
  case (snoc x xs)
  show ?case
  proof (cases "P x")
    case True
    then show ?thesis by (intro exI [of _ xs] exI [of _ "[]"]) simp
  next
    case False
    with snoc.prems have ne: "filter P xs \<noteq> []" by simp
    from snoc.IH [OF ne] obtain l1 l2 where
      "xs = l1 @ last (filter P xs) # l2" "filter P l2 = []" "P (last (filter P xs))" by blast
    then show ?thesis using False
      by (intro exI [of _ l1] exI [of _ "l2 @ [x]"]) simp
  qed
qed

text \<open>From the predecessor found one level up, the level-i linked continues to ys.\<close>
lemma chain_from_above:
  assumes ch: "linked h i (forward (h hdr) ! i) (at_level h i ls @ ys)"
    and hh: "i < height h hdr"
  shows "\<exists>xs. linked h i (forward (h (last (hdr # at_level h (Suc i) ls))) ! i) (xs @ ys)
           \<and> set xs \<subseteq> set (at_level h i ls)
           \<and> last (last (hdr # at_level h (Suc i) ls) # xs) = last (hdr # at_level h i ls)
           \<and> i < height h (last (hdr # at_level h (Suc i) ls))"
proof (cases "at_level h (Suc i) ls = []")
  case True
  then show ?thesis using ch hh by (intro exI [of _ "at_level h i ls"]) simp
next
  case False
  let ?c = "last (at_level h (Suc i) ls)"
  from filter_last_split [of "\<lambda>a. Suc i < height h a" ls] False obtain l1 l2 where
    sp: "ls = l1 @ ?c # l2" and e: "at_level h (Suc i) l2 = []" and hc: "Suc i < height h ?c"
    unfolding at_level_def by blast
  have f: "at_level h i ls = at_level h i l1 @ ?c # at_level h i l2"
    using hc by (subst sp) (simp add: at_level_def)
  have "linked h i (forward (h hdr) ! i) (at_level h i l1 @ ?c # (at_level h i l2 @ ys))"
    using ch f by simp
  from chain_tail [OF this] have c2: "linked h i (forward (h ?c) ! i) (at_level h i l2 @ ys)" by simp
  show ?thesis
    using c2 hc False f by (intro exI [of _ "at_level h i l2"]) auto
qed

lemma sto_eq: "strict_total_order cmp \<Longrightarrow> (cmp a b = 0) = (a = b)"
  by (simp add: strict_total_order_def)

lemma sto_flip: "strict_total_order cmp \<Longrightarrow> (cmp a b < 0) = (cmp b a > 0)"
  by (simp add: strict_total_order_def)

lemma sto_trans: "strict_total_order cmp \<Longrightarrow> cmp a b < 0 \<Longrightarrow> cmp b c < 0 \<Longrightarrow> cmp a c < 0"
  unfolding strict_total_order_def by blast

lemma sto_irrefl: "strict_total_order cmp \<Longrightarrow> \<not> cmp a a < 0"
  using sto_eq [of cmp a a] by simp

lemma sorted_split:
  assumes sto: "strict_total_order cmp"
    and srt: "sorted_wrt (\<lambda>a b. cmp (key (h a)) (key (h b)) < 0) as"
  shows "\<exists>ls rs. as = ls @ rs \<and> (\<forall>a \<in> set ls. cmp (key (h a)) k < 0)
           \<and> (\<forall>a \<in> set rs. \<not> cmp (key (h a)) k < 0)
           \<and> (\<forall>a \<in> set (tl rs). cmp (key (h a)) k > 0)"
  using srt
proof (induction as)
  case Nil
  then show ?case by simp
next
  case (Cons a as)
  show ?case
  proof (cases "cmp (key (h a)) k < 0")
    case True
    from Cons obtain ls rs where "as = ls @ rs" "\<forall>a \<in> set ls. cmp (key (h a)) k < 0"
      "\<forall>a \<in> set rs. \<not> cmp (key (h a)) k < 0" "\<forall>a \<in> set (tl rs). cmp (key (h a)) k > 0"
      by auto
    then show ?thesis using True
      by (intro exI [of _ "a # ls"] exI [of _ rs]) simp
  next
    case False
    have gt: "cmp (key (h b)) k > 0" if "b \<in> set as" for b
    proof -
      from Cons.prems that have ab: "cmp (key (h a)) (key (h b)) < 0" by simp
      have "\<not> cmp (key (h b)) k < 0"
        using sto_trans [OF sto ab] False by blast
      moreover have "cmp (key (h b)) k \<noteq> 0"
        using sto_eq [OF sto, of "key (h b)" k] ab False by auto
      ultimately show ?thesis by linarith
    qed
    then show ?thesis using False
      by (intro exI [of _ "[]"] exI [of _ "a # as"]) fastforce
  qed
qed

lemma sorted_distinct:
  assumes sto: "strict_total_order cmp"
    and srt: "sorted_wrt (\<lambda>a b. cmp (key (h a)) (key (h b)) < 0) as"
  shows "distinct as"
  using srt sto_irrefl [OF sto] by (induction as) auto

lemma at_level_append [simp]: "at_level h i (xs @ ys) = at_level h i xs @ at_level h i ys"
  by (simp add: at_level_def)

lemma at_level_0: "\<forall>a \<in> set as. 0 < height h a \<Longrightarrow> at_level h 0 as = as"
  by (simp add: at_level_def)

lemma at_level_empty: "\<forall>a \<in> set as. height h a \<le> i \<Longrightarrow> at_level h i as = []"
  by (auto simp: at_level_def filter_empty_conv)

lemma set_at_level: "set (at_level h i as) \<subseteq> set as"
  by (auto simp: at_level_def)

lemma pred_at_in: "pred_at h hdr ls j = hdr \<or> pred_at h hdr ls j \<in> set ls"
proof (cases "at_level h j ls = []")
  case True
  then show ?thesis by (simp add: pred_at_def)
next
  case False
  then have "last (at_level h j ls) \<in> set (at_level h j ls)" by simp
  then have "last (at_level h j ls) \<in> set ls" using set_at_level [of h j ls] by blast
  then show ?thesis using False by (simp add: pred_at_def)
qed

lemma advance_level:
  assumes ch: "linked h i (forward (h hdr) ! i) (at_level h i ls @ at_level h i rs)"
    and hh: "i < height h hdr"
    and lt: "\<forall>a \<in> set ls. cmp (key (h a)) k < 0"
    and ge: "\<forall>a \<in> set rs. \<not> cmp (key (h a)) k < 0"
  shows "advance h cmp k i (pred_at h hdr ls (Suc i)) = Some (Inr (pred_at h hdr ls i))"
proof -
  from chain_from_above [OF ch hh] obtain xs where
    c: "linked h i (forward (h (pred_at h hdr ls (Suc i))) ! i) (xs @ at_level h i rs)"
    and sub: "set xs \<subseteq> set (at_level h i ls)"
    and l: "last (pred_at h hdr ls (Suc i) # xs) = pred_at h hdr ls i"
    and hp: "i < height h (pred_at h hdr ls (Suc i))"
    unfolding pred_at_def by blast
  have 1: "\<forall>a \<in> set xs. cmp (key (h a)) k < 0"
    using sub lt set_at_level [of h i ls] by blast
  have 2: "at_level h i rs \<noteq> [] \<longrightarrow> \<not> cmp (key (h (hd (at_level h i rs)))) k < 0"
  proof
    assume "at_level h i rs \<noteq> []"
    then have "hd (at_level h i rs) \<in> set rs" using set_at_level [of h i rs] hd_in_set by blast
    then show "\<not> cmp (key (h (hd (at_level h i rs)))) k < 0" using ge by blast
  qed
  show ?thesis
    using advance_chain [of h i "pred_at h hdr ls (Suc i)" xs "at_level h i rs" cmp k] c hp 1 2 l
    by simp
qed

lemma last_at_level:
  assumes ch: "linked h i (forward (h hdr) ! i) (at_level h i ls)"
    and hh: "i < height h hdr"
  shows "last_at h i (pred_at h hdr ls (Suc i)) = Some (Inr (pred_at h hdr ls i))"
proof -
  from chain_from_above [of h i hdr ls "[]"] ch hh obtain xs where
    c: "linked h i (forward (h (pred_at h hdr ls (Suc i))) ! i) xs"
    and l: "last (pred_at h hdr ls (Suc i) # xs) = pred_at h hdr ls i"
    and hp: "i < height h (pred_at h hdr ls (Suc i))"
    unfolding pred_at_def by auto
  show ?thesis using last_at_chain [OF c hp] l by simp
qed

lemma descend_levels:
  assumes "\<forall>j \<le> i. linked h j (forward (h hdr) ! j) (at_level h j ls @ at_level h j rs) \<and> j < height h hdr"
    and lt: "\<forall>a \<in> set ls. cmp (key (h a)) k < 0"
    and ge: "\<forall>a \<in> set rs. \<not> cmp (key (h a)) k < 0"
  shows "descend h cmp k i (pred_at h hdr ls (Suc i)) = Some (Inr (pred_at h hdr ls 0))"
  using assms(1)
proof (induction i)
  case 0
  then show ?case using advance_level [of h 0 hdr ls rs cmp k] lt ge by simp
next
  case (Suc i)
  have "advance h cmp k (Suc i) (pred_at h hdr ls (Suc (Suc i))) = Some (Inr (pred_at h hdr ls (Suc i)))"
    using advance_level [of h "Suc i" hdr ls rs cmp k] lt ge Suc.prems by simp
  moreover have "descend h cmp k i (pred_at h hdr ls (Suc i)) = Some (Inr (pred_at h hdr ls 0))"
    using Suc by simp
  ultimately show ?case by simp
qed

lemma descend_last_levels:
  assumes "\<forall>j \<le> i. linked h j (forward (h hdr) ! j) (at_level h j ls) \<and> j < height h hdr"
  shows "descend_last h i (pred_at h hdr ls (Suc i)) = Some (Inr (pred_at h hdr ls 0))"
  using assms(1)
proof (induction i)
  case 0
  then show ?case using last_at_level [of h 0 hdr ls] by simp
next
  case (Suc i)
  have "last_at h (Suc i) (pred_at h hdr ls (Suc (Suc i))) = Some (Inr (pred_at h hdr ls (Suc i)))"
    using last_at_level [of h "Suc i" hdr ls] Suc.prems by simp
  moreover have "descend_last h i (pred_at h hdr ls (Suc i)) = Some (Inr (pred_at h hdr ls 0))"
    using Suc by simp
  ultimately show ?case by simp
qed

lemma descend_update_levels:
  assumes "\<forall>j \<le> i. linked h j (forward (h hdr) ! j) (at_level h j ls @ at_level h j rs) \<and> j < height h hdr"
    and lt: "\<forall>a \<in> set ls. cmp (key (h a)) k < 0"
    and ge: "\<forall>a \<in> set rs. \<not> cmp (key (h a)) k < 0"
    and len: "i < length u"
  shows "\<exists>u'. descend_update h cmp k i (pred_at h hdr ls (Suc i)) u = Some (Inr (pred_at h hdr ls 0, u'))
           \<and> length u' = length u
           \<and> (\<forall>j \<le> i. u' ! j = Some (pred_at h hdr ls j))
           \<and> (\<forall>j > i. u' ! j = u ! j)"
  using assms(1) len
proof (induction i arbitrary: u)
  case 0
  then show ?case using advance_level [of h 0 hdr ls rs cmp k] lt ge by (simp add: set_update_def)
next
  case (Suc i)
  let ?u1 = "u[Suc i := Some (pred_at h hdr ls (Suc i))]"
  have a: "advance h cmp k (Suc i) (pred_at h hdr ls (Suc (Suc i))) = Some (Inr (pred_at h hdr ls (Suc i)))"
    using advance_level [of h "Suc i" hdr ls rs cmp k] lt ge Suc.prems by simp
  have "i < length ?u1" using Suc.prems by simp
  with Suc.IH [of ?u1] Suc.prems obtain u' where
    d: "descend_update h cmp k i (pred_at h hdr ls (Suc i)) ?u1 = Some (Inr (pred_at h hdr ls 0, u'))"
    and l: "length u' = length ?u1"
    and lo: "\<forall>j \<le> i. u' ! j = Some (pred_at h hdr ls j)"
    and hi: "\<forall>j > i. u' ! j = ?u1 ! j"
    by auto
  have "\<forall>j \<le> Suc i. u' ! j = Some (pred_at h hdr ls j)"
  proof (intro allI impI)
    fix j assume "j \<le> Suc i"
    then show "u' ! j = Some (pred_at h hdr ls j)"
      using lo hi Suc.prems(2) by (cases "j = Suc i") auto
  qed
  moreover have "\<forall>j > Suc i. u' ! j = u ! j" using hi by auto
  ultimately show ?case using a d l Suc.prems(2) by (simp add: set_update_def)
qed

lemma chain_next:
  assumes "linked h j (forward (h c) ! j) (xs @ ys)" and "j < height h c"
  shows "forward (h (last (c # xs))) ! j = (if ys = [] then None else Some (hd ys))
         \<and> j < height h (last (c # xs))"
proof (cases xs rule: rev_cases)
  case Nil
  then show ?thesis using assms by (cases ys) auto
next
  case (snoc xs' x)
  then have "linked h j (forward (h c) ! j) (xs' @ x # ys)" using assms by simp
  from chain_tail [OF this] show ?thesis using snoc by (cases ys) auto
qed

lemma wf_split: "wf_map s as \<Longrightarrow> \<exists>ls rs. split_at (heap s) (comparator s) k as ls rs"
  unfolding split_at_def wf_map_def using sorted_split [of "comparator s" "heap s" as k] by blast

lemma wf_distinct: "wf_map s as \<Longrightarrow> distinct as"
  unfolding wf_map_def using sorted_distinct [of "comparator s" "heap s" as] by blast

lemma wf_chain:
  "wf_map s as \<Longrightarrow> i < maxLevel s \<Longrightarrow>
     linked (heap s) i (forward (heap s (header s)) ! i) (at_level (heap s) i as)"
  by (simp add: wf_map_def)

lemma wf_pred_top:
  assumes "wf_map s as" and "set ls \<subseteq> set as" and "level s < j"
  shows "pred_at (heap s) (header s) ls j = header s"
proof -
  have "\<forall>a \<in> set ls. height (heap s) a \<le> j" using assms by (fastforce simp: wf_map_def)
  then show ?thesis by (simp add: pred_at_def at_level_empty)
qed

lemma wf_pred_0:
  assumes "wf_map s as" and "set ls \<subseteq> set as"
  shows "pred_at (heap s) (header s) ls 0 = last (header s # ls)"
proof -
  have "\<forall>a \<in> set ls. 0 < height (heap s) a" using assms by (fastforce simp: wf_map_def)
  then show ?thesis by (simp add: pred_at_def at_level_0)
qed

lemma wf_levels:
  assumes w: "wf_map s as" and sp: "split_at (heap s) (comparator s) k as ls rs"
  shows "\<forall>j \<le> level s. linked (heap s) j (forward (heap s (header s)) ! j)
            (at_level (heap s) j ls @ at_level (heap s) j rs) \<and> j < height (heap s) (header s)"
proof (intro allI impI)
  fix j assume "j \<le> level s"
  then have "j < maxLevel s" using w by (simp add: wf_map_def)
  then show "linked (heap s) j (forward (heap s (header s)) ! j)
            (at_level (heap s) j ls @ at_level (heap s) j rs) \<and> j < height (heap s) (header s)"
    using wf_chain [OF w, of j] sp w by (simp add: split_at_def wf_map_def)
qed

lemma wf_descend:
  assumes w: "wf_map s as" and sp: "split_at (heap s) (comparator s) k as ls rs"
  shows "descend (heap s) (comparator s) k (level s) (header s) = Some (Inr (last (header s # ls)))"
proof -
  have sub: "set ls \<subseteq> set as" using sp by (auto simp: split_at_def)
  have "descend (heap s) (comparator s) k (level s) (pred_at (heap s) (header s) ls (Suc (level s)))
        = Some (Inr (pred_at (heap s) (header s) ls 0))"
    using descend_levels [of "level s" "heap s" "header s" ls rs "comparator s" k]
      wf_levels [OF w sp] sp by (simp add: split_at_def)
  then show ?thesis using wf_pred_top [OF w sub, of "Suc (level s)"] wf_pred_0 [OF w sub] by simp
qed

lemma wf_descend_update:
  assumes w: "wf_map s as" and sp: "split_at (heap s) (comparator s) k as ls rs"
  shows "\<exists>u'. descend_update (heap s) (comparator s) k (level s) (header s) (updateCache s)
                 = Some (Inr (last (header s # ls), u'))
           \<and> length u' = maxLevel s
           \<and> (\<forall>j \<le> level s. u' ! j = Some (pred_at (heap s) (header s) ls j))"
proof -
  have sub: "set ls \<subseteq> set as" using sp by (auto simp: split_at_def)
  have len: "level s < length (updateCache s)" using w by (simp add: wf_map_def)
  from descend_update_levels [of "level s" "heap s" "header s" ls rs "comparator s" k "updateCache s"]
    wf_levels [OF w sp] sp len
  obtain u' where
    "descend_update (heap s) (comparator s) k (level s)
       (pred_at (heap s) (header s) ls (Suc (level s))) (updateCache s)
       = Some (Inr (pred_at (heap s) (header s) ls 0, u'))"
    "length u' = length (updateCache s)"
    "\<forall>j \<le> level s. u' ! j = Some (pred_at (heap s) (header s) ls j)"
    unfolding split_at_def by blast
  then show ?thesis
    using wf_pred_top [OF w sub, of "Suc (level s)"] wf_pred_0 [OF w sub] w
    by (intro exI [of _ u']) (simp add: wf_map_def)
qed

lemma wf_next:
  assumes w: "wf_map s as" and sp: "split_at (heap s) (comparator s) k as ls rs"
  shows "forward (heap s (last (header s # ls))) ! 0 = (if rs = [] then None else Some (hd rs))
         \<and> 0 < length (forward (heap s (last (header s # ls))))"
proof -
  have as: "as = ls @ rs" using sp by (simp add: split_at_def)
  have "at_level (heap s) 0 as = as" using w by (intro at_level_0) (simp add: wf_map_def)
  then have "linked (heap s) 0 (forward (heap s (header s)) ! 0) (ls @ rs)"
    using wf_chain [OF w, of 0] w as by (simp add: wf_map_def DefaultMaxLevel_def)
  moreover have "0 < height (heap s) (header s)" using w by (simp add: wf_map_def DefaultMaxLevel_def)
  ultimately show ?thesis using chain_next [of "heap s" 0 "header s" ls rs]
    by (simp add: height_def)
qed

lemma map_of_entries_notin:
  "\<forall>a \<in> set xs. key (h a) \<noteq> k \<Longrightarrow> map_of (entries h xs) k = None"
  by (induction xs) (auto simp: entries_def)

lemma entries_append [simp]: "entries h (xs @ ys) = entries h xs @ entries h ys"
  by (simp add: entries_def)

lemma split_lookup:
  assumes sto: "strict_total_order cmp" and sp: "split_at h cmp k as ls rs"
  shows "map_of (entries h as) k =
           (if rs \<noteq> [] \<and> cmp (key (h (hd rs))) k = 0 then Some (val (h (hd rs))) else None)"
proof -
  have l: "\<forall>a \<in> set ls. key (h a) \<noteq> k"
    using sp sto_irrefl [OF sto, of k] by (auto simp: split_at_def)
  have t: "\<forall>a \<in> set (tl rs). key (h a) \<noteq> k"
    using sp sto_eq [OF sto, of k k] by (fastforce simp: split_at_def)
  have 1: "map_of (entries h as) k = map_of (entries h rs) k"
    using sp map_of_entries_notin [OF l] by (simp add: split_at_def map_add_def)
  show ?thesis
  proof (cases rs)
    case Nil
    then show ?thesis using 1 by (simp add: entries_def)
  next
    case (Cons r rs')
    then show ?thesis
      using 1 t map_of_entries_notin [of rs' h k] sto_eq [OF sto, of "key (h r)" k]
      by (auto simp: entries_def)
  qed
qed

lemma Get_wf:
  assumes w: "wf_map s as"
  shows "Get k s = Some (Inr (map_of (entries (heap s) as) k))"
proof -
  from wf_split [OF w] obtain ls rs where sp: "split_at (heap s) (comparator s) k as ls rs" by blast
  have sto: "strict_total_order (comparator s)" using w by (simp add: wf_map_def)
  show ?thesis
    unfolding Get_def
    using wf_descend [OF w sp] wf_next [OF w sp] split_lookup [OF sto sp]
    by (cases rs) (auto simp: index_def)
qed

declare randomLevel_loop.simps [simp del]
declare raise_update.simps [simp del]
declare splice_node.simps [simp del]
declare unlink.simps [simp del]

lemma randomLevel_loop_bound:
  "lvl < maxl \<Longrightarrow> randomLevel_loop flips maxl lvl < maxl"
proof (induction flips maxl lvl rule: randomLevel_loop.induct)
  case (1 flips maxl lvl)
  show ?case
  proof (cases "flips lvl \<and> int lvl < int maxl - 1")
    case True
    then have "lvl + 1 < maxl" by linarith
    with 1 True show ?thesis by (subst randomLevel_loop.simps) simp
  next
    case False
    with 1 show ?thesis by (subst randomLevel_loop.simps) auto
  qed
qed

lemma randomLevel_bound: "0 < maxLevel s \<Longrightarrow> randomLevel s flips < maxLevel s"
  by (simp add: randomLevel_def randomLevel_loop_bound)

lemma raise_update_correct:
  assumes "nl < length u"
  shows "\<exists>u'. raise_update u hdr i nl = Some (Inr u') \<and> length u' = length u
           \<and> (\<forall>j. i \<le> j \<and> j \<le> nl \<longrightarrow> u' ! j = Some hdr)
           \<and> (\<forall>j. j < i \<longrightarrow> u' ! j = u ! j)"
  using assms
proof (induction "nl + 1 - i" arbitrary: i u)
  case 0
  then have n: "\<not> i \<le> nl" by simp
  then have e: "raise_update u hdr i nl = Some (Inr u)" by (subst raise_update.simps) simp
  show ?case using e n by auto
next
  case (Suc d)
  then have le: "i \<le> nl" by simp
  let ?u1 = "u[i := Some hdr]"
  have "d = nl + 1 - (i + 1)" using Suc.hyps(2) by simp
  from Suc.hyps(1) [OF this, of ?u1] Suc.prems obtain u' where
    r: "raise_update ?u1 hdr (i + 1) nl = Some (Inr u')" and l: "length u' = length u"
    and a: "\<forall>j. i + 1 \<le> j \<and> j \<le> nl \<longrightarrow> u' ! j = Some hdr"
    and b: "\<forall>j. j < i + 1 \<longrightarrow> u' ! j = ?u1 ! j"
    by auto
  have "\<forall>j. i \<le> j \<and> j \<le> nl \<longrightarrow> u' ! j = Some hdr"
  proof (intro allI impI)
    fix j assume "i \<le> j \<and> j \<le> nl"
    then show "u' ! j = Some hdr" using a b le Suc.prems by (cases "j = i") auto
  qed
  moreover have "\<forall>j. j < i \<longrightarrow> u' ! j = u ! j" using b by auto
  ultimately show ?case
    using r l le Suc.prems by (subst raise_update.simps) (simp add: set_update_def)
qed

lemma splice_correct:
  assumes "\<forall>j. i \<le> j \<and> j \<le> nl \<longrightarrow>
             j < length u \<and> u ! j = Some (U j) \<and> U j \<noteq> n \<and> j < height h (U j) \<and> j < height h n"
  shows "\<exists>h'. splice_node h u n i nl = Some (Inr h')
           \<and> (\<forall>a. key (h' a) = key (h a) \<and> val (h' a) = val (h a) \<and> height h' a = height h a)
           \<and> (\<forall>a j. forward (h' a) ! j =
                 (if i \<le> j \<and> j \<le> nl \<and> a = n then forward (h (U j)) ! j
                  else if i \<le> j \<and> j \<le> nl \<and> a = U j then Some n
                  else forward (h a) ! j))"
  using assms
proof (induction "nl + 1 - i" arbitrary: i h)
  case 0
  then have n: "\<not> i \<le> nl" by simp
  then have e: "splice_node h u n i nl = Some (Inr h)" by (subst splice_node.simps) simp
  show ?case using e n by auto
next
  case (Suc d)
  then have le: "i \<le> nl" by simp
  from Suc.prems le have ui: "i < length u" "u ! i = Some (U i)" "U i \<noteq> n"
    "i < height h (U i)" "i < height h n" by auto
  let ?h1 = "h(n := (h n)\<lparr>forward := (forward (h n))[i := forward (h (U i)) ! i]\<rparr>)"
  let ?h2 = "?h1(U i := (?h1 (U i))\<lparr>forward := (forward (?h1 (U i)))[i := Some n]\<rparr>)"
  have kv: "\<forall>a. key (?h2 a) = key (h a) \<and> val (?h2 a) = val (h a) \<and> height ?h2 a = height h a"
    by (simp add: height_def)
  have fw: "\<forall>a j. forward (?h2 a) ! j =
              (if j = i \<and> a = n then forward (h (U i)) ! i
               else if j = i \<and> a = U i then Some n else forward (h a) ! j)"
    using ui by (auto simp: height_def nth_list_update)
  have d: "d = nl + 1 - (i + 1)" using Suc.hyps(2) by simp
  have pre: "\<forall>j. i + 1 \<le> j \<and> j \<le> nl \<longrightarrow>
             j < length u \<and> u ! j = Some (U j) \<and> U j \<noteq> n \<and> j < height ?h2 (U j) \<and> j < height ?h2 n"
    using Suc.prems kv by auto
  from Suc.hyps(1) [OF d pre] obtain h' where
    s: "splice_node ?h2 u n (i + 1) nl = Some (Inr h')"
    and kv': "\<forall>a. key (h' a) = key (?h2 a) \<and> val (h' a) = val (?h2 a) \<and> height h' a = height ?h2 a"
    and fw': "\<forall>a j. forward (h' a) ! j =
                 (if i + 1 \<le> j \<and> j \<le> nl \<and> a = n then forward (?h2 (U j)) ! j
                  else if i + 1 \<le> j \<and> j \<le> nl \<and> a = U j then Some n
                  else forward (?h2 a) ! j)"
    by blast
  have step: "splice_node h u n i nl = splice_node ?h2 u n (i + 1) nl"
    using le ui by (subst splice_node.simps) (simp add: index_def deref_def set_forward_def height_def)
  have "\<forall>a j. forward (h' a) ! j =
                 (if i \<le> j \<and> j \<le> nl \<and> a = n then forward (h (U j)) ! j
                  else if i \<le> j \<and> j \<le> nl \<and> a = U j then Some n
                  else forward (h a) ! j)"
  proof (intro allI)
    fix a j
    have "forward (?h2 (U j)) ! j = forward (h (U j)) ! j" if "i + 1 \<le> j" "j \<le> nl"
      using that fw Suc.prems by auto
    then show "forward (h' a) ! j =
                 (if i \<le> j \<and> j \<le> nl \<and> a = n then forward (h (U j)) ! j
                  else if i \<le> j \<and> j \<le> nl \<and> a = U j then Some n
                  else forward (h a) ! j)"
      using fw' [rule_format, of a j] fw [rule_format, of a j] le
      by (cases "j = i") auto
  qed
  then show ?case using step s kv kv' by auto
qed

lemma chain_insert:
  assumes "linked h j (forward (h c) ! j) (xs @ ys)"
    and "distinct (c # xs @ ys)" and "n \<notin> set (c # xs @ ys)"
    and "\<forall>a \<in> set (xs @ ys). height h' a = height h a"
    and "j < height h' n"
    and "forward (h' (last (c # xs))) ! j = Some n"
    and "forward (h' n) ! j = forward (h (last (c # xs))) ! j"
    and "\<forall>a \<in> set (c # xs @ ys). a \<noteq> last (c # xs) \<longrightarrow> forward (h' a) ! j = forward (h a) ! j"
  shows "linked h' j (forward (h' c) ! j) (xs @ n # ys)"
  using assms
proof (induction xs arbitrary: c)
  case Nil
  have "linked h' j (forward (h c) ! j) ys"
    using Nil by (intro chain_cong [of h j _ ys h']) auto
  then show ?case using Nil by simp
next
  case (Cons x xs)
  from Cons.prems(1) have nx: "forward (h c) ! j = Some x" and hx: "j < height h x"
    and ch: "linked h j (forward (h x) ! j) (xs @ ys)" by auto
  have cne: "c \<noteq> last (c # x # xs)" using Cons.prems(2) by auto
  then have 1: "forward (h' c) ! j = Some x" using Cons.prems(8) nx by auto
  have 2: "j < height h' x" using hx Cons.prems(4) by simp
  have "linked h' j (forward (h' x) ! j) (xs @ n # ys)"
    using Cons.prems ch by (intro Cons.IH) auto
  then show ?case using 1 2 by simp
qed

lemma chain_heap_eq:
  "\<forall>a. forward (h' a) = forward (h a) \<Longrightarrow> linked h' i p xs = linked h i p xs"
  by (induction xs arbitrary: p) (auto simp: height_def)

lemma wf_cong:
  assumes w: "wf_map s as"
    and e: "\<forall>a. key (h' a) = key (heap s a) \<and> forward (h' a) = forward (heap s a)"
    and l: "length u = maxLevel s"
  shows "wf_map (s\<lparr>heap := h', updateCache := u\<rparr>) as"
proof -
  have hh: "height h' = height (heap s)" using e by (simp add: fun_eq_iff height_def)
  then have al: "\<And>i. at_level h' i as = at_level (heap s) i as" by (simp add: at_level_def)
  have ch: "\<And>i p xs. linked h' i p xs = linked (heap s) i p xs" using e by (simp add: chain_heap_eq)
  show ?thesis using w e l unfolding wf_map_def by (simp add: hh al ch)
qed

lemma entries_upd_notin: "t \<notin> set xs \<Longrightarrow> entries (h(t := x)) xs = entries h xs"
  by (induction xs) (auto simp: entries_def)

lemma map_of_mid:
  "k \<notin> fst ` set xs \<Longrightarrow> map_of (xs @ (k, v) # ys) = (map_of (xs @ ys))(k \<mapsto> v)"
proof (induction xs)
  case Nil
  then show ?case by simp
next
  case (Cons x xs)
  then have "fst x \<noteq> k" by auto
  with Cons show ?case by (cases x) (auto simp: fun_upd_twist)
qed

lemma split_keys_left:
  assumes sto: "strict_total_order cmp" and sp: "split_at h cmp k as ls rs"
  shows "k \<notin> fst ` set (entries h ls)"
  using sp sto_irrefl [OF sto, of k] by (auto simp: split_at_def entries_def)

lemma Put_found:
  assumes w: "wf_map s as" and sp: "split_at (heap s) (comparator s) k as ls rs"
    and f: "rs \<noteq> [] \<and> comparator s (key (heap s (hd rs))) k = 0"
  shows "\<exists>s'. Put k v flips s = Some (Inr s') \<and> wf_map s' as
           \<and> map_of (entries (heap s') as) = (map_of (entries (heap s) as))(k \<mapsto> v)
           \<and> level s' = level s \<and> comparator s' = comparator s \<and> length_m s' = length_m s
           \<and> fresh s' = fresh s
           \<and> (\<forall>a. forward (heap s' a) = forward (heap s a) \<and> key (heap s' a) = key (heap s a))"
proof -
  have sto: "strict_total_order (comparator s)" using w by (simp add: wf_map_def)
  from f obtain t rs' where rs: "rs = t # rs'" by (cases rs) auto
  with f have kt: "key (heap s t) = k" using sto_eq [OF sto] by auto
  from wf_descend_update [OF w sp] obtain u' where
    d: "descend_update (heap s) (comparator s) k (level s) (header s) (updateCache s)
          = Some (Inr (last (header s # ls), u'))"
    and lu: "length u' = maxLevel s" by blast
  let ?h' = "(heap s)(t := (heap s t)\<lparr>val := v\<rparr>)"
  let ?s' = "s\<lparr>heap := ?h', updateCache := u'\<rparr>"
  have p: "Put k v flips s = Some (Inr ?s')"
    unfolding Put_def using d wf_next [OF w sp] f rs by (simp add: index_def)
  have w': "wf_map ?s' as" using w lu by (intro wf_cong) auto
  have dist: "distinct (ls @ t # rs')" using wf_distinct [OF w] sp rs by (simp add: split_at_def)
  have e': "entries ?h' as = entries (heap s) ls @ (k, v) # entries (heap s) rs'"
    using sp rs dist kt by (simp add: split_at_def entries_upd_notin) (simp add: entries_def)
  have e: "entries (heap s) as = entries (heap s) ls @ (k, val (heap s t)) # entries (heap s) rs'"
    using sp rs kt by (simp add: split_at_def) (simp add: entries_def)
  have m': "map_of (entries ?h' as) = (map_of (entries (heap s) ls @ entries (heap s) rs'))(k \<mapsto> v)"
    unfolding e' using split_keys_left [OF sto sp] by (rule map_of_mid)
  have m: "map_of (entries (heap s) as)
         = (map_of (entries (heap s) ls @ entries (heap s) rs'))(k \<mapsto> val (heap s t))"
    unfolding e using split_keys_left [OF sto sp] by (rule map_of_mid)
  have "map_of (entries ?h' as) = (map_of (entries (heap s) as))(k \<mapsto> v)"
    unfolding m m' by simp
  then show ?thesis using p w' by (intro exI [of _ ?s']) simp
qed

lemma pred_at_height: "j < height h hdr \<Longrightarrow> j < height h (pred_at h hdr ls j)"
proof (cases "at_level h j ls = []")
  case True
  assume "j < height h hdr"
  then show ?thesis using True by (simp add: pred_at_def)
next
  case False
  then have "last (at_level h j ls) \<in> set (at_level h j ls)" by simp
  then show ?thesis using False by (simp add: pred_at_def at_level_def)
qed

lemma at_level_cong:
  "\<forall>a \<in> set xs. height h' a = height h a \<Longrightarrow> at_level h' i xs = at_level h i xs"
  unfolding at_level_def by (rule filter_cong) auto

lemma entries_cong:
  "\<forall>a \<in> set xs. key (h' a) = key (h a) \<and> val (h' a) = val (h a) \<Longrightarrow> entries h' xs = entries h xs"
  by (simp add: entries_def)

lemma sorted_wrt_keys_cong:
  "\<forall>a \<in> set xs. key (h' a) = key (h a) \<Longrightarrow>
     sorted_wrt (\<lambda>a b. cmp (key (h' a)) (key (h' b)) < 0) xs
       = sorted_wrt (\<lambda>a b. cmp (key (h a)) (key (h b)) < 0) xs"
  by (induction xs) auto

lemma chain_nonempty: "linked h i p xs \<Longrightarrow> xs \<noteq> [] \<Longrightarrow> p \<noteq> None"
  by (cases xs) auto

lemma chain_None: "linked h i None xs \<Longrightarrow> xs = []"
  by (cases xs) auto

lemma Put_fresh_eq:
  assumes "descend_update (heap s) (comparator s) k (level s) (header s) (updateCache s)
             = Some (Inr (c, u0))"
    and "index (forward (heap s c)) 0 = Some (Inr nx)"
    and "\<not> (nx \<noteq> None \<and> comparator s (key (heap s (the nx))) k = 0)"
    and "(if randomLevel s flips > level s
          then raise_update u0 (header s) (level s + 1) (randomLevel s flips)
          else Some (Inr u0)) = Some (Inr u1)"
    and "splice_node ((heap s)(fresh s := \<lparr>key = k, val = v,
                   forward = replicate (randomLevel s flips + 1) None\<rparr>))
           u1 (fresh s) 0 (randomLevel s flips) = Some (Inr h2)"
  shows "Put k v flips s =
           Some (Inr (s\<lparr>heap := h2, fresh := fresh s + 1,
                        level := (if randomLevel s flips > level s then randomLevel s flips else level s),
                        length_m := length_m s + 1, updateCache := u1\<rparr>))"
  unfolding Put_def Let_def
  by (simp only: assms bindO_simps prod.case if_False)

lemma Put_fresh:
  assumes w: "wf_map s as" and sp: "split_at (heap s) (comparator s) k as ls rs"
    and nf: "\<not> (rs \<noteq> [] \<and> comparator s (key (heap s (hd rs))) k = 0)"
  shows "\<exists>s'. Put k v flips s = Some (Inr s') \<and> wf_map s' (ls @ fresh s # rs)
           \<and> map_of (entries (heap s') (ls @ fresh s # rs)) = (map_of (entries (heap s) as))(k \<mapsto> v)
           \<and> level s \<le> level s' \<and> comparator s' = comparator s
           \<and> length_m s' = length_m s + 1"
proof -
  define h where "h = heap s"
  define hdr where "hdr = header s"
  define cmp where "cmp = comparator s"
  define n where "n = fresh s"
  define nl where "nl = randomLevel s flips"
  define L where "L = level s"
  define M where "M = maxLevel s"
  define U where "U = pred_at h hdr ls"
  note defs = h_def hdr_def cmp_def n_def nl_def L_def M_def
  have sto: "strict_total_order cmp" using w by (simp add: wf_map_def defs)
  have as: "as = ls @ rs" using sp by (simp add: split_at_def)
  have M: "M = DefaultMaxLevel" "0 < M" "height h hdr = M" "L < M"
    using w by (simp_all add: wf_map_def defs DefaultMaxLevel_def)
  have nlM: "nl < M" using randomLevel_bound [of s flips] M by (simp add: defs)
  have fr: "hdr < n" "\<forall>a \<in> set as. a < n" "hdr \<notin> set as"
    using w by (simp_all add: wf_map_def defs)
  have nas: "n \<notin> set as" "n \<noteq> hdr" using fr by auto
  have dist: "distinct as" using wf_distinct [OF w] .
  have hts: "\<forall>a \<in> set as. 0 < height h a \<and> height h a \<le> L + 1"
    using w by (simp add: wf_map_def defs)
  have Uin: "\<And>j. U j = hdr \<or> U j \<in> set ls" unfolding U_def by (rule pred_at_in)
  have Un: "\<And>j. U j \<noteq> n" using Uin nas as by (metis Un_iff set_append)
  have Uh: "\<And>j. j < M \<Longrightarrow> j < height h (U j)"
    unfolding U_def using M by (intro pred_at_height) simp
  have Utop: "\<And>j. L < j \<Longrightarrow> U j = hdr"
    unfolding U_def defs using wf_pred_top [OF w, of ls] as by simp
  \<comment> \<open>the search\<close>
  from wf_descend_update [OF w sp] obtain u0 where
    d: "descend_update h cmp k L hdr (updateCache s) = Some (Inr (last (hdr # ls), u0))"
    and lu0: "length u0 = M" and u0: "\<forall>j \<le> L. u0 ! j = Some (U j)"
    unfolding defs U_def by blast
  have nx: "forward (h (last (hdr # ls))) ! 0 = (if rs = [] then None else Some (hd rs))"
    "0 < length (forward (h (last (hdr # ls))))"
    using wf_next [OF w sp] by (simp_all add: defs)
  \<comment> \<open>the update buffer\<close>
  have "\<exists>u1. (if nl > L then raise_update u0 hdr (L + 1) nl else Some (Inr u0)) = Some (Inr u1)
          \<and> length u1 = M \<and> (\<forall>j \<le> nl. u1 ! j = Some (U j))"
  proof (cases "nl > L")
    case True
    from raise_update_correct [of nl u0 hdr "L + 1"] nlM lu0 obtain u1 where
      r: "raise_update u0 hdr (L + 1) nl = Some (Inr u1)" and l1: "length u1 = length u0"
      and a: "\<forall>j. L + 1 \<le> j \<and> j \<le> nl \<longrightarrow> u1 ! j = Some hdr"
      and b: "\<forall>j. j < L + 1 \<longrightarrow> u1 ! j = u0 ! j" by auto
    have "\<forall>j \<le> nl. u1 ! j = Some (U j)"
    proof (intro allI impI)
      fix j assume "j \<le> nl"
      then show "u1 ! j = Some (U j)" using a b u0 Utop [of j] by (cases "j \<le> L") auto
    qed
    then show ?thesis using True r l1 lu0 by simp
  next
    case False
    then show ?thesis using lu0 u0 by auto
  qed
  then obtain u1 where
    r: "(if nl > L then raise_update u0 hdr (L + 1) nl else Some (Inr u0)) = Some (Inr u1)"
    and lu1: "length u1 = M" and u1: "\<forall>j \<le> nl. u1 ! j = Some (U j)" by blast
  \<comment> \<open>allocation and splicing\<close>
  define h1 where "h1 = h(n := \<lparr>key = k, val = v, forward = replicate (nl + 1) None\<rparr>)"
  have h1o: "\<And>a. a \<noteq> n \<Longrightarrow> h1 a = h a" by (simp add: h1_def)
  have h1n: "key (h1 n) = k" "val (h1 n) = v" "height h1 n = nl + 1"
    by (simp_all add: h1_def height_def)
  have pre: "\<forall>j. 0 \<le> j \<and> j \<le> nl \<longrightarrow>
             j < length u1 \<and> u1 ! j = Some (U j) \<and> U j \<noteq> n \<and> j < height h1 (U j) \<and> j < height h1 n"
  proof (intro allI impI)
    fix j assume j: "0 \<le> j \<and> j \<le> nl"
    then have "j < M" using nlM by simp
    then have "j < height h1 (U j)" using Uh [of j] Un [of j] by (simp add: height_def h1o)
    then show "j < length u1 \<and> u1 ! j = Some (U j) \<and> U j \<noteq> n \<and> j < height h1 (U j) \<and> j < height h1 n"
      using j lu1 u1 Un h1n nlM by simp
  qed
  from splice_correct [OF pre] obtain h2 where
    spl: "splice_node h1 u1 n 0 nl = Some (Inr h2)"
    and kv: "\<forall>a. key (h2 a) = key (h1 a) \<and> val (h2 a) = val (h1 a) \<and> height h2 a = height h1 a"
    and fw0: "\<forall>a j. forward (h2 a) ! j =
                 (if 0 \<le> j \<and> j \<le> nl \<and> a = n then forward (h1 (U j)) ! j
                  else if 0 \<le> j \<and> j \<le> nl \<and> a = U j then Some n
                  else forward (h1 a) ! j)" by blast
  have fwn: "\<And>j. j \<le> nl \<Longrightarrow> forward (h2 n) ! j = forward (h (U j)) ! j"
    using fw0 Un by (simp add: h1o)
  have fwU: "\<And>j. j \<le> nl \<Longrightarrow> forward (h2 (U j)) ! j = Some n"
    using fw0 Un by simp
  have fwo: "\<And>a j. a \<noteq> n \<Longrightarrow> \<not> (j \<le> nl \<and> a = U j) \<Longrightarrow> forward (h2 a) ! j = forward (h a) ! j"
    using fw0 by (auto simp: h1o)
  have kvo: "\<forall>a. a \<noteq> n \<longrightarrow> key (h2 a) = key (h a) \<and> val (h2 a) = val (h a) \<and> height h2 a = height h a"
    using kv by (simp add: h1o height_def)
  have nls: "\<forall>a \<in> set ls. a \<noteq> n" "\<forall>a \<in> set rs. a \<noteq> n" using nas as by auto
  have kvn: "key (h2 n) = k" "val (h2 n) = v" "height h2 n = nl + 1" using kv h1n by simp_all
  define L' where "L' = (if nl > L then nl else L)"
  define s' where "s' = s\<lparr>heap := h2, fresh := n + 1, level := L', length_m := length_m s + 1,
                           updateCache := u1\<rparr>"
  have ix: "index (forward (heap s (last (header s # ls)))) 0
              = Some (Inr (if rs = [] then None else Some (hd rs)))"
    using nx by (simp add: index_def defs)
  have nf': "\<not> ((if rs = [] then None else Some (hd rs)) \<noteq> None
               \<and> comparator s (key (heap s (the (if rs = [] then None else Some (hd rs))))) k = 0)"
    using nf by auto
  have p: "Put k v flips s = Some (Inr s')"
    unfolding s'_def L'_def
    using Put_fresh_eq [OF d [unfolded defs] ix nf' r [unfolded defs] spl [unfolded h1_def defs]]
    by (simp add: defs)
  \<comment> \<open>the new state is well formed\<close>
  have al: "\<And>i. at_level h2 i (ls @ n # rs)
                 = at_level h i ls @ (if i \<le> nl then [n] else []) @ at_level h i rs"
  proof -
    fix i
    have "\<forall>a \<in> set ls. height h2 a = height h a" "\<forall>a \<in> set rs. height h2 a = height h a"
      using nls kvo by simp_all
    then have "at_level h2 i ls = at_level h i ls" "at_level h2 i rs = at_level h i rs"
      by (simp_all add: at_level_cong)
    then show "at_level h2 i (ls @ n # rs)
                 = at_level h i ls @ (if i \<le> nl then [n] else []) @ at_level h i rs"
      using kvn by (auto simp: at_level_def)
  qed
  have chains: "linked h2 i (forward (h2 hdr) ! i) (at_level h2 i (ls @ n # rs))" if i: "i < M" for i
  proof -
    have old: "linked h i (forward (h hdr) ! i) (at_level h i ls @ at_level h i rs)"
      using wf_chain [OF w, of i] i as by (simp add: defs)
    have sub: "set (at_level h i ls @ at_level h i rs) \<subseteq> set as"
      using set_at_level [of h i ls] set_at_level [of h i rs] as by auto
    have subn: "\<forall>a \<in> set (at_level h i ls @ at_level h i rs). a \<noteq> n" using nas sub by auto
    show ?thesis
    proof (cases "i \<le> nl")
      case True
      have lastU: "last (hdr # at_level h i ls) = U i" by (simp add: U_def pred_at_def)
      have "linked h2 i (forward (h2 hdr) ! i) (at_level h i ls @ n # at_level h i rs)"
      proof (rule chain_insert [where h = h])
        show "linked h i (forward (h hdr) ! i) (at_level h i ls @ at_level h i rs)" by (rule old)
        show "distinct (hdr # at_level h i ls @ at_level h i rs)"
          using dist fr(3) sub as by (auto simp: at_level_def)
        show "n \<notin> set (hdr # at_level h i ls @ at_level h i rs)" using nas sub by auto
        show "\<forall>a \<in> set (at_level h i ls @ at_level h i rs). height h2 a = height h a"
          using kvo subn by simp
        show "i < height h2 n" using kvn True by simp
        show "forward (h2 (last (hdr # at_level h i ls))) ! i = Some n"
          unfolding lastU using fwU [OF True] .
        show "forward (h2 n) ! i = forward (h (last (hdr # at_level h i ls))) ! i"
          unfolding lastU using fwn [OF True] .
        show "\<forall>a \<in> set (hdr # at_level h i ls @ at_level h i rs).
                a \<noteq> last (hdr # at_level h i ls) \<longrightarrow> forward (h2 a) ! i = forward (h a) ! i"
          unfolding lastU using fwo nas subn by auto
      qed
      then show ?thesis using al [of i] True by simp
    next
      case False
      have "linked h2 i (forward (h hdr) ! i) (at_level h i ls @ at_level h i rs)"
        using old
      proof (rule chain_cong)
        show "\<forall>a \<in> set (at_level h i ls @ at_level h i rs).
                forward (h2 a) ! i = forward (h a) ! i \<and> height h2 a = height h a"
          using fwo kvo subn False by simp
      qed
      moreover have "forward (h2 hdr) ! i = forward (h hdr) ! i" using fwo nas False by simp
      ultimately show ?thesis using al [of i] False by simp
    qed
  qed
  have srt: "sorted_wrt (\<lambda>a b. cmp (key (h2 a)) (key (h2 b)) < 0) (ls @ n # rs)"
  proof -
    have o: "sorted_wrt (\<lambda>a b. cmp (key (h a)) (key (h b)) < 0) (ls @ rs)"
      using w as by (simp add: wf_map_def defs)
    have lk: "\<forall>a \<in> set ls. cmp (key (h a)) k < 0" using sp by (simp add: split_at_def defs)
    have rk: "\<forall>a \<in> set rs. cmp k (key (h a)) < 0"
    proof
      fix a assume a: "a \<in> set rs"
      have "cmp (key (h a)) k > 0"
      proof (cases "a = hd rs")
        case True
        have "\<not> cmp (key (h a)) k < 0" using sp a by (simp add: split_at_def defs)
        moreover have "cmp (key (h a)) k \<noteq> 0" using nf a True by (auto simp: defs)
        ultimately show ?thesis by linarith
      next
        case False
        then have "a \<in> set (tl rs)" using a by (cases rs) auto
        then show ?thesis using sp by (simp add: split_at_def defs)
      qed
      then show "cmp k (key (h a)) < 0" using sto_flip [OF sto] by simp
    qed
    have "sorted_wrt (\<lambda>a b. cmp (key (h a)) (key (h b)) < 0) ls"
      "sorted_wrt (\<lambda>a b. cmp (key (h a)) (key (h b)) < 0) rs"
      "\<forall>x \<in> set ls. \<forall>y \<in> set rs. cmp (key (h x)) (key (h y)) < 0"
      using o by (simp_all add: sorted_wrt_append)
    moreover have k2: "\<forall>a \<in> set ls. key (h2 a) = key (h a)" "\<forall>a \<in> set rs. key (h2 a) = key (h a)"
      using nls kvo by simp_all
    ultimately show ?thesis
      using lk rk kvn sorted_wrt_keys_cong [OF k2(1), of cmp] sorted_wrt_keys_cong [OF k2(2), of cmp]
      by (simp add: sorted_wrt_append)
  qed
  have top: "L' = 0 \<or> forward (h2 hdr) ! L' \<noteq> None"
  proof (cases "L' = 0")
    case True
    then show ?thesis by simp
  next
    case False
    have L'M: "L' < M" using M nlM by (simp add: L'_def)
    have "at_level h2 L' (ls @ n # rs) \<noteq> []"
    proof (cases "nl > L")
      case True
      then show ?thesis using al [of L'] by (simp add: L'_def)
    next
      case F: False
      then have L': "L' = L" by (simp add: L'_def)
      have "forward (h hdr) ! L \<noteq> None" using w False L' by (simp add: wf_map_def defs)
      moreover have "linked h L (forward (h hdr) ! L) (at_level h L ls @ at_level h L rs)"
        using wf_chain [OF w, of L] M as by (simp add: defs)
      ultimately have "at_level h L ls @ at_level h L rs \<noteq> []" using chain_None by fastforce
      then show ?thesis using al [of L] L' by auto
    qed
    with chains [OF L'M] show ?thesis using chain_nonempty by blast
  qed
  have w': "wf_map s' (ls @ n # rs)"
    unfolding wf_map_def
  proof (intro conjI)
    show "strict_total_order (comparator s')" using sto by (simp add: s'_def defs)
    show "maxLevel s' = DefaultMaxLevel" using M by (simp add: s'_def defs)
    show "height (heap s') (header s') = maxLevel s'"
      using kvo [rule_format, of hdr] nas M by (simp add: s'_def defs)
    show "length (updateCache s') = maxLevel s'" using lu1 by (simp add: s'_def defs)
    show "level s' < maxLevel s'" using M nlM by (simp add: s'_def L'_def defs)
    show "header s' \<notin> set (ls @ n # rs)" using fr nas as by (simp add: s'_def defs)
    show "header s' < fresh s'" using fr by (simp add: s'_def defs)
    show "\<forall>a \<in> set (ls @ n # rs). a < fresh s'"
      using fr(2) as by (fastforce simp: s'_def less_Suc_eq)
    show "\<forall>a \<in> set (ls @ n # rs). 0 < height (heap s') a \<and> height (heap s') a \<le> level s' + 1"
    proof
      fix a assume a: "a \<in> set (ls @ n # rs)"
      show "0 < height (heap s') a \<and> height (heap s') a \<le> level s' + 1"
      proof (cases "a = n")
        case True
        then show ?thesis using kvn by (simp add: s'_def L'_def)
      next
        case False
        then have "a \<in> set as" using a as by auto
        then show ?thesis using hts kvo [rule_format, OF False] by (auto simp: s'_def L'_def)
      qed
    qed
    show "sorted_wrt (\<lambda>a b. comparator s' (key (heap s' a)) (key (heap s' b)) < 0) (ls @ n # rs)"
      using srt by (simp add: s'_def defs)
    show "\<forall>i < maxLevel s'. linked (heap s') i (forward (heap s' (header s')) ! i)
            (at_level (heap s') i (ls @ n # rs))"
      using chains by (simp add: s'_def defs)
    show "level s' = 0 \<or> forward (heap s' (header s')) ! level s' \<noteq> None"
      using top by (simp add: s'_def defs)
    show "length_m s' = int (length (ls @ n # rs))"
      using w as by (simp add: s'_def wf_map_def)
  qed
  have "entries h2 (ls @ n # rs) = entries h ls @ (k, v) # entries h rs"
  proof -
    have "\<forall>a \<in> set ls. key (h2 a) = key (h a) \<and> val (h2 a) = val (h a)"
      "\<forall>a \<in> set rs. key (h2 a) = key (h a) \<and> val (h2 a) = val (h a)"
      using nls kvo by simp_all
    then have "entries h2 ls = entries h ls" "entries h2 rs = entries h rs"
      by (simp_all add: entries_cong)
    then show ?thesis using kvn by (simp add: entries_def)
  qed
  then have m: "map_of (entries h2 (ls @ n # rs)) = (map_of (entries h as))(k \<mapsto> v)"
    using map_of_mid [OF split_keys_left [OF sto sp [folded defs]]] as by simp
  show ?thesis
    using p w' m by (intro exI [of _ s']) (simp add: s'_def L'_def defs)
qed

lemma unlink_correct:
  assumes "\<forall>j. i \<le> j \<and> j \<le> lvl \<longrightarrow>
             j < length u \<and> u ! j = Some (U j) \<and> U j \<noteq> t \<and> j < height h (U j)"
    and "\<forall>j. i \<le> j \<and> j < ht \<longrightarrow> forward (h (U j)) ! j = Some t"
    and "ht = height h t"
    and "ht \<le> lvl \<longrightarrow> forward (h (U ht)) ! ht \<noteq> Some t"
    and "i \<le> ht" and "ht \<le> lvl + 1"
  shows "\<exists>h'. unlink h u t i lvl = Some (Inr h')
           \<and> (\<forall>a. key (h' a) = key (h a) \<and> val (h' a) = val (h a) \<and> height h' a = height h a)
           \<and> (\<forall>a j. forward (h' a) ! j =
                 (if i \<le> j \<and> j < ht \<and> a = U j then forward (h t) ! j else forward (h a) ! j))"
  using assms
proof (induction "ht - i" arbitrary: i h)
  case 0
  then have i: "i = ht" by simp
  have e: "unlink h u t i lvl = Some (Inr h)"
  proof (cases "i \<le> lvl")
    case True
    with "0.prems"(1) have "i < length u \<and> u ! i = Some (U i) \<and> i < height h (U i)" by simp
    moreover have "forward (h (U i)) ! i \<noteq> Some t" using "0.prems"(4) True i by simp
    ultimately show ?thesis using True
      by (subst unlink.simps) (simp add: index_def deref_def height_def)
  next
    case False
    then show ?thesis by (subst unlink.simps) simp
  qed
  show ?case using e i by auto
next
  case (Suc d)
  then have lt: "i < ht" and le: "i \<le> lvl" by simp_all
  from Suc.prems le lt have ui: "i < length u" "u ! i = Some (U i)" "U i \<noteq> t"
    "i < height h (U i)" "forward (h (U i)) ! i = Some t" "i < height h t" by auto
  let ?h1 = "h(U i := (h (U i))\<lparr>forward := (forward (h (U i)))[i := forward (h t) ! i]\<rparr>)"
  have kv: "\<forall>a. key (?h1 a) = key (h a) \<and> val (?h1 a) = val (h a) \<and> height ?h1 a = height h a"
    by (simp add: height_def)
  have fw: "\<forall>a j. forward (?h1 a) ! j =
              (if j = i \<and> a = U i then forward (h t) ! i else forward (h a) ! j)"
    using ui by (auto simp: height_def nth_list_update)
  have d: "d = ht - (i + 1)" using Suc.hyps(2) by simp
  have 1: "\<forall>j. i + 1 \<le> j \<and> j \<le> lvl \<longrightarrow>
             j < length u \<and> u ! j = Some (U j) \<and> U j \<noteq> t \<and> j < height ?h1 (U j)"
    using Suc.prems(1) kv by auto
  have 2: "\<forall>j. i + 1 \<le> j \<and> j < ht \<longrightarrow> forward (?h1 (U j)) ! j = Some t"
    using Suc.prems(2) fw by auto
  have 3: "ht = height ?h1 t" using Suc.prems(3) kv by simp
  have 4: "ht \<le> lvl \<longrightarrow> forward (?h1 (U ht)) ! ht \<noteq> Some t"
    using Suc.prems(4) fw lt by auto
  have 5: "i + 1 \<le> ht" using lt by simp
  from Suc.hyps(1) [OF d 1 2 3 4 5 Suc.prems(6)] obtain h' where
    s: "unlink ?h1 u t (i + 1) lvl = Some (Inr h')"
    and kv': "\<forall>a. key (h' a) = key (?h1 a) \<and> val (h' a) = val (?h1 a) \<and> height h' a = height ?h1 a"
    and fw': "\<forall>a j. forward (h' a) ! j =
                 (if i + 1 \<le> j \<and> j < ht \<and> a = U j then forward (?h1 t) ! j else forward (?h1 a) ! j)"
    by blast
  have step: "unlink h u t i lvl = unlink ?h1 u t (i + 1) lvl"
    using le ui by (subst unlink.simps) (simp add: index_def deref_def set_forward_def height_def)
  have "\<forall>a j. forward (h' a) ! j =
                 (if i \<le> j \<and> j < ht \<and> a = U j then forward (h t) ! j else forward (h a) ! j)"
  proof (intro allI)
    fix a j
    have "forward (?h1 t) ! j = forward (h t) ! j" using fw ui(3) by auto
    then show "forward (h' a) ! j =
                 (if i \<le> j \<and> j < ht \<and> a = U j then forward (h t) ! j else forward (h a) ! j)"
      using fw' [rule_format, of a j] fw [rule_format, of a j] lt
      by (cases "j = i") auto
  qed
  then show ?case using step s kv kv' by auto
qed

lemma linked_remove:
  assumes "linked h j (forward (h c) ! j) (xs @ t # ys)"
    and "distinct (c # xs @ t # ys)"
    and "\<forall>a \<in> set (xs @ ys). height h' a = height h a"
    and "forward (h' (last (c # xs))) ! j = forward (h t) ! j"
    and "\<forall>a \<in> set (c # xs @ ys). a \<noteq> last (c # xs) \<longrightarrow> forward (h' a) ! j = forward (h a) ! j"
  shows "linked h' j (forward (h' c) ! j) (xs @ ys)"
  using assms
proof (induction xs arbitrary: c)
  case Nil
  have "linked h' j (forward (h t) ! j) ys"
    using Nil by (intro chain_cong [of h j _ ys h']) auto
  then show ?case using Nil by simp
next
  case (Cons x xs)
  from Cons.prems(1) have nx: "forward (h c) ! j = Some x" and hx: "j < height h x"
    and ch: "linked h j (forward (h x) ! j) (xs @ t # ys)" by auto
  have cne: "c \<noteq> last (c # x # xs)" using Cons.prems(2) by auto
  then have 1: "forward (h' c) ! j = Some x" using Cons.prems(5) nx by auto
  have 2: "j < height h' x" using hx Cons.prems(3) by simp
  have "linked h' j (forward (h' x) ! j) (xs @ ys)"
    using Cons.prems ch by (intro Cons.IH) auto
  then show ?case using 1 2 by simp
qed

lemma lower_level_correct:
  assumes "l < height h hdr"
  shows "\<exists>l'. lower_level h hdr l = Some (Inr l') \<and> l' \<le> l
           \<and> (l' = 0 \<or> forward (h hdr) ! l' \<noteq> None)
           \<and> (\<forall>j. l' < j \<and> j \<le> l \<longrightarrow> forward (h hdr) ! j = None)"
  using assms
proof (induction l)
  case 0
  then show ?case by simp
next
  case (Suc l)
  show ?case
  proof (cases "forward (h hdr) ! Suc l = None")
    case True
    from Suc obtain l' where
      "lower_level h hdr l = Some (Inr l')" "l' \<le> l" "l' = 0 \<or> forward (h hdr) ! l' \<noteq> None"
      "\<forall>j. l' < j \<and> j \<le> l \<longrightarrow> forward (h hdr) ! j = None" by auto
    then show ?thesis using True Suc.prems
      by (intro exI [of _ l']) (auto simp: index_def height_def le_Suc_eq)
  next
    case False
    then show ?thesis using Suc.prems
      by (intro exI [of _ "Suc l"]) (auto simp: index_def height_def)
  qed
qed

lemma Remove_absent:
  assumes w: "wf_map s as" and sp: "split_at (heap s) (comparator s) k as ls rs"
    and nf: "\<not> (rs \<noteq> [] \<and> comparator s (key (heap s (hd rs))) k = 0)"
  shows "\<exists>u. Remove k s = Some (Inr (False, s\<lparr>updateCache := u\<rparr>)) \<and> length u = maxLevel s"
proof -
  from wf_descend_update [OF w sp] obtain u' where
    d: "descend_update (heap s) (comparator s) k (level s) (header s) (updateCache s)
          = Some (Inr (last (header s # ls), u'))"
    and lu: "length u' = maxLevel s" by blast
  have "Remove k s = Some (Inr (False, s\<lparr>updateCache := u'\<rparr>))"
    unfolding Remove_def using d wf_next [OF w sp] nf by (cases rs) (auto simp: index_def)
  then show ?thesis using lu by blast
qed

lemma Remove_present_eq:
  assumes "descend_update (heap s) (comparator s) k (level s) (header s) (updateCache s)
             = Some (Inr (c, u0))"
    and "index (forward (heap s c)) 0 = Some (Inr (Some t))"
    and "comparator s (key (heap s t)) k = 0"
    and "unlink (heap s) u0 t 0 (level s) = Some (Inr h1)"
    and "lower_level h1 (header s) (level s) = Some (Inr l')"
  shows "Remove k s =
           Some (Inr (True, s\<lparr>heap := h1, level := l', length_m := length_m s - 1,
                               updateCache := u0\<rparr>))"
  unfolding Remove_def using assms by simp

lemma Remove_present:
  assumes w: "wf_map s as" and sp: "split_at (heap s) (comparator s) k as ls rs"
    and f: "rs \<noteq> [] \<and> comparator s (key (heap s (hd rs))) k = 0"
  shows "\<exists>s'. Remove k s = Some (Inr (True, s')) \<and> wf_map s' (ls @ tl rs)
           \<and> map_of (entries (heap s') (ls @ tl rs)) = (map_of (entries (heap s) as))(k := None)
           \<and> level s' \<le> level s
           \<and> (level s' < level s \<longrightarrow> forward (heap s' (header s')) ! level s = None)
           \<and> comparator s' = comparator s \<and> length_m s' = length_m s - 1"
proof -
  define h where "h = heap s"
  define hdr where "hdr = header s"
  define cmp where "cmp = comparator s"
  define L where "L = level s"
  define M where "M = maxLevel s"
  define U where "U = pred_at h hdr ls"
  note defs = h_def hdr_def cmp_def L_def M_def
  from f obtain t rs' where rs: "rs = t # rs'" by (cases rs) auto
  define ht where "ht = height h t"
  have sto: "strict_total_order cmp" using w by (simp add: wf_map_def defs)
  have kt: "key (h t) = k" using f rs sto_eq [OF sto] by (auto simp: defs)
  have as: "as = ls @ t # rs'" using sp rs by (simp add: split_at_def)
  have M: "0 < M" "height h hdr = M" "L < M"
    using w by (simp_all add: wf_map_def defs DefaultMaxLevel_def)
  have fr: "hdr < fresh s" "\<forall>a \<in> set as. a < fresh s" "hdr \<notin> set as"
    using w by (simp_all add: wf_map_def defs)
  have dist: "distinct (ls @ t # rs')" using wf_distinct [OF w] as by simp
  have hts: "\<forall>a \<in> set as. 0 < height h a \<and> height h a \<le> L + 1"
    using w by (simp add: wf_map_def defs)
  have ht: "0 < ht" "ht \<le> L + 1" using hts as by (simp_all add: ht_def)
  have Uin: "\<And>j. U j = hdr \<or> U j \<in> set ls" unfolding U_def by (rule pred_at_in)
  have Ut: "\<And>j. U j \<noteq> t" using Uin [of j] fr(3) dist as by (metis Uin distinct_append
        disjoint_iff in_set_conv_decomp list.set_intros(1) Un_iff set_append)
  have Uh: "\<And>j. j < M \<Longrightarrow> j < height h (U j)"
    unfolding U_def using M by (intro pred_at_height) simp
  have old: "\<And>j. j < M \<Longrightarrow> linked h j (forward (h hdr) ! j)
                (at_level h j ls @ at_level h j (t # rs'))"
    using wf_chain [OF w] as by (simp add: defs)
  from wf_descend_update [OF w sp] obtain u0 where
    d: "descend_update h cmp k L hdr (updateCache s) = Some (Inr (last (hdr # ls), u0))"
    and lu0: "length u0 = M" and u0: "\<forall>j \<le> L. u0 ! j = Some (U j)"
    unfolding defs U_def by blast
  have ix: "index (forward (heap s (last (header s # ls)))) 0 = Some (Inr (Some t))"
    using wf_next [OF w sp] rs by (simp add: index_def)
  \<comment> \<open>unlinking\<close>
  have nxt: "forward (h (U j)) ! j =
               (if at_level h j (t # rs') = [] then None else Some (hd (at_level h j (t # rs'))))"
    if "j < M" for j
    using chain_next [OF old [OF that]] that M by (simp add: U_def pred_at_def)
  have 1: "\<forall>j. 0 \<le> j \<and> j \<le> L \<longrightarrow>
             j < length u0 \<and> u0 ! j = Some (U j) \<and> U j \<noteq> t \<and> j < height h (U j)"
    using lu0 u0 Ut Uh M by auto
  have 2: "\<forall>j. 0 \<le> j \<and> j < ht \<longrightarrow> forward (h (U j)) ! j = Some t"
  proof (intro allI impI)
    fix j assume j: "0 \<le> j \<and> j < ht"
    then have "j < M" using ht M by simp
    from nxt [OF this] j show "forward (h (U j)) ! j = Some t" by (simp add: at_level_def ht_def)
  qed
  have 4: "ht \<le> L \<longrightarrow> forward (h (U ht)) ! ht \<noteq> Some t"
  proof
    assume "ht \<le> L"
    then have hm: "ht < M" using M by simp
    have e: "at_level h ht (t # rs') = at_level h ht rs'" by (simp add: at_level_def ht_def)
    show "forward (h (U ht)) ! ht \<noteq> Some t"
    proof (cases "at_level h ht rs' = []")
      case True
      then show ?thesis using nxt [OF hm] e by simp
    next
      case False
      then have "hd (at_level h ht rs') \<in> set rs'"
        using set_at_level [of h ht rs'] hd_in_set by blast
      then have "hd (at_level h ht rs') \<noteq> t" using dist by auto
      then show ?thesis using nxt [OF hm] e False by simp
    qed
  qed
  from unlink_correct [OF 1 2 ht_def 4 _ ht(2)] obtain h1 where
    ul: "unlink h u0 t 0 L = Some (Inr h1)"
    and kv: "\<forall>a. key (h1 a) = key (h a) \<and> val (h1 a) = val (h a) \<and> height h1 a = height h a"
    and fw0: "\<forall>a j. forward (h1 a) ! j =
                 (if 0 \<le> j \<and> j < ht \<and> a = U j then forward (h t) ! j else forward (h a) ! j)"
    by auto
  have hh: "height h1 = height h" using kv by (simp add: fun_eq_iff)
  have al: "\<And>i xs. at_level h1 i xs = at_level h i xs" by (simp add: at_level_def hh)
  from lower_level_correct [of L h1 hdr] M kv obtain L' where
    ll: "lower_level h1 hdr L = Some (Inr L')" and L'le: "L' \<le> L"
    and top: "L' = 0 \<or> forward (h1 hdr) ! L' \<noteq> None"
    and above: "\<forall>j. L' < j \<and> j \<le> L \<longrightarrow> forward (h1 hdr) ! j = None" by auto
  define s' where "s' = s\<lparr>heap := h1, level := L', length_m := length_m s - 1, updateCache := u0\<rparr>"
  have p: "Remove k s = Some (Inr (True, s'))"
    unfolding s'_def
    using Remove_present_eq [OF d [unfolded defs] ix _ ul [unfolded defs] ll [unfolded defs]] f rs
    by simp
  \<comment> \<open>the new state is well formed\<close>
  have chains: "linked h1 i (forward (h1 hdr) ! i) (at_level h1 i (ls @ rs'))" if i: "i < M" for i
  proof -
    have sub: "set (at_level h i ls @ at_level h i rs') \<subseteq> set (ls @ rs')"
      using set_at_level [of h i ls] set_at_level [of h i rs'] by auto
    show ?thesis
    proof (cases "i < ht")
      case True
      have lastU: "last (hdr # at_level h i ls) = U i" by (simp add: U_def pred_at_def)
      have o: "linked h i (forward (h hdr) ! i) (at_level h i ls @ t # at_level h i rs')"
        using old [OF i] True by (simp add: at_level_def ht_def)
      have "linked h1 i (forward (h1 hdr) ! i) (at_level h i ls @ at_level h i rs')"
      proof (rule linked_remove [where h = h and t = t])
        show "linked h i (forward (h hdr) ! i) (at_level h i ls @ t # at_level h i rs')" by (rule o)
        show "distinct (hdr # at_level h i ls @ t # at_level h i rs')"
          using dist fr(3) as by (auto simp: at_level_def)
        show "\<forall>a \<in> set (at_level h i ls @ at_level h i rs'). height h1 a = height h a"
          by (simp add: hh)
        show "forward (h1 (last (hdr # at_level h i ls))) ! i = forward (h t) ! i"
          unfolding lastU using fw0 True by simp
        show "\<forall>a \<in> set (hdr # at_level h i ls @ at_level h i rs').
                a \<noteq> last (hdr # at_level h i ls) \<longrightarrow> forward (h1 a) ! i = forward (h a) ! i"
          unfolding lastU using fw0 by simp
      qed
      then show ?thesis by (simp add: al)
    next
      case False
      have o: "linked h i (forward (h hdr) ! i) (at_level h i ls @ at_level h i rs')"
        using old [OF i] False by (simp add: at_level_def ht_def)
      have "linked h1 i (forward (h hdr) ! i) (at_level h i ls @ at_level h i rs')"
        using o
      proof (rule chain_cong)
        show "\<forall>a \<in> set (at_level h i ls @ at_level h i rs').
                forward (h1 a) ! i = forward (h a) ! i \<and> height h1 a = height h a"
          using fw0 False by (simp add: hh)
      qed
      moreover have "forward (h1 hdr) ! i = forward (h hdr) ! i" using fw0 False by simp
      ultimately show ?thesis by (simp add: al)
    qed
  qed
  have low: "\<forall>a \<in> set (ls @ rs'). 0 < height h1 a \<and> height h1 a \<le> L' + 1"
  proof
    fix a assume a: "a \<in> set (ls @ rs')"
    then have ha: "0 < height h a" "height h a \<le> L + 1" using hts as by auto
    have "height h a \<le> L' + 1"
    proof (rule ccontr)
      assume "\<not> height h a \<le> L' + 1"
      then have j: "L' < height h a - 1" "height h a - 1 \<le> L" "height h a - 1 < height h a"
        using ha by auto
      then have "forward (h1 hdr) ! (height h a - 1) = None" using above by simp
      moreover have "linked h1 (height h a - 1) (forward (h1 hdr) ! (height h a - 1))
                       (at_level h1 (height h a - 1) (ls @ rs'))"
        using chains [of "height h a - 1"] j M by simp
      ultimately have "at_level h1 (height h a - 1) (ls @ rs') = []" using chain_None by fastforce
      then show False using a j(3) by (auto simp: at_level_def filter_empty_conv hh)
    qed
    then show "0 < height h1 a \<and> height h1 a \<le> L' + 1" using ha by (simp add: hh)
  qed
  have w': "wf_map s' (ls @ rs')"
    unfolding wf_map_def
  proof (intro conjI)
    show "strict_total_order (comparator s')" using sto by (simp add: s'_def defs)
    show "maxLevel s' = DefaultMaxLevel" using w by (simp add: s'_def wf_map_def)
    show "height (heap s') (header s') = maxLevel s'" using M by (simp add: s'_def defs hh)
    show "length (updateCache s') = maxLevel s'" using lu0 by (simp add: s'_def defs)
    show "level s' < maxLevel s'" using M L'le by (simp add: s'_def defs)
    show "header s' \<notin> set (ls @ rs')" using fr as by (simp add: s'_def defs)
    show "header s' < fresh s'" using fr by (simp add: s'_def defs)
    show "\<forall>a \<in> set (ls @ rs'). a < fresh s'" using fr as by (auto simp: s'_def)
    show "\<forall>a \<in> set (ls @ rs'). 0 < height (heap s') a \<and> height (heap s') a \<le> level s' + 1"
      using low by (simp add: s'_def)
    have "sorted_wrt (\<lambda>a b. cmp (key (h a)) (key (h b)) < 0) (ls @ t # rs')"
      using w as by (simp add: wf_map_def defs)
    then have "sorted_wrt (\<lambda>a b. cmp (key (h a)) (key (h b)) < 0) (ls @ rs')"
      by (simp add: sorted_wrt_append)
    then show "sorted_wrt (\<lambda>a b. comparator s' (key (heap s' a)) (key (heap s' b)) < 0) (ls @ rs')"
      using kv by (simp add: s'_def defs)
    show "\<forall>i < maxLevel s'. linked (heap s') i (forward (heap s' (header s')) ! i)
            (at_level (heap s') i (ls @ rs'))"
      using chains by (simp add: s'_def defs)
    show "level s' = 0 \<or> forward (heap s' (header s')) ! level s' \<noteq> None"
      using top by (simp add: s'_def defs)
    show "length_m s' = int (length (ls @ rs'))"
      using w as by (simp add: s'_def wf_map_def)
  qed
  have e1: "entries h1 (ls @ rs') = entries h ls @ entries h rs'"
    using kv by (simp add: entries_def)
  have e0: "entries h as = entries h ls @ (k, val (h t)) # entries h rs'"
    using as kt by (simp add: entries_def)
  have kl: "k \<notin> fst ` set (entries h ls)" using split_keys_left [OF sto sp [folded defs]] .
  have kr: "k \<notin> fst ` set (entries h rs')"
  proof -
    have "\<forall>a \<in> set rs'. key (h a) \<noteq> k"
      using sp rs sto_eq [OF sto, of k k] by (fastforce simp: split_at_def defs)
    then show ?thesis by (auto simp: entries_def)
  qed
  have "map_of (entries h ls @ entries h rs') k = None"
    using kl kr by (simp add: map_of_eq_None_iff image_Un)
  then have m: "map_of (entries h1 (ls @ rs')) = (map_of (entries h as))(k := None)"
    unfolding e0 e1 map_of_mid [OF kl] by (auto simp: fun_eq_iff)
  have lv: "L' < L \<longrightarrow> forward (h1 hdr) ! L = None" using above by simp
  show ?thesis
    using p w' m L'le lv rs by (intro exI [of _ s']) (simp add: s'_def defs)
qed

lemma New_wf:
  assumes "strict_total_order cmp"
  shows "wf_map (NewWithComparator cmp zk zv) []"
  using assms
  by (simp add: wf_map_def NewWithComparator_def height_def at_level_def DefaultMaxLevel_def)

lemma Put_wf:
  assumes w: "wf_map s as"
  shows "\<exists>s' as'. Put k v flips s = Some (Inr s') \<and> wf_map s' as'
           \<and> map_of (entries (heap s') as') = (map_of (entries (heap s) as))(k \<mapsto> v)
           \<and> level s \<le> level s' \<and> comparator s' = comparator s
           \<and> length_m s' = (if map_of (entries (heap s) as) k = None then length_m s + 1 else length_m s)
           \<and> (map_of (entries (heap s) as) k \<noteq> None \<longrightarrow>
                level s' = level s \<and> fresh s' = fresh s
                \<and> (\<forall>a. forward (heap s' a) = forward (heap s a) \<and> key (heap s' a) = key (heap s a)))"
proof -
  from wf_split [OF w] obtain ls rs where sp: "split_at (heap s) (comparator s) k as ls rs" by blast
  have sto: "strict_total_order (comparator s)" using w by (simp add: wf_map_def)
  show ?thesis
  proof (cases "rs \<noteq> [] \<and> comparator s (key (heap s (hd rs))) k = 0")
    case True
    from Put_found [OF w sp True, of v flips] obtain s' where
      "Put k v flips s = Some (Inr s')" "wf_map s' as"
      "map_of (entries (heap s') as) = (map_of (entries (heap s) as))(k \<mapsto> v)"
      "level s' = level s" "comparator s' = comparator s" "length_m s' = length_m s"
      "fresh s' = fresh s"
      "\<forall>a. forward (heap s' a) = forward (heap s a) \<and> key (heap s' a) = key (heap s a)"
      by blast
    then show ?thesis using split_lookup [OF sto sp] True
      by (intro exI [of _ s'] exI [of _ as]) simp
  next
    case False
    from Put_fresh [OF w sp False, of v flips] obtain s' where
      "Put k v flips s = Some (Inr s')" "wf_map s' (ls @ fresh s # rs)"
      "map_of (entries (heap s') (ls @ fresh s # rs)) = (map_of (entries (heap s) as))(k \<mapsto> v)"
      "level s \<le> level s'" "comparator s' = comparator s" "length_m s' = length_m s + 1"
      by blast
    then show ?thesis using split_lookup [OF sto sp] False
      by (intro exI [of _ s'] exI [of _ "ls @ fresh s # rs"]) auto
  qed
qed

lemma Remove_wf:
  assumes w: "wf_map s as"
  shows "\<exists>b s' as'. Remove k s = Some (Inr (b, s')) \<and> wf_map s' as'
           \<and> map_of (entries (heap s') as') = (map_of (entries (heap s) as))(k := None)
           \<and> b = (map_of (entries (heap s) as) k \<noteq> None)
           \<and> (\<not> b \<longrightarrow> as' = as \<and> (\<exists>u. s' = s\<lparr>updateCache := u\<rparr>))
           \<and> level s' \<le> level s
           \<and> (level s' < level s \<longrightarrow> b \<and> forward (heap s' (header s')) ! level s = None)
           \<and> comparator s' = comparator s
           \<and> length_m s' = (if b then length_m s - 1 else length_m s)"
proof -
  from wf_split [OF w] obtain ls rs where sp: "split_at (heap s) (comparator s) k as ls rs" by blast
  have sto: "strict_total_order (comparator s)" using w by (simp add: wf_map_def)
  show ?thesis
  proof (cases "rs \<noteq> [] \<and> comparator s (key (heap s (hd rs))) k = 0")
    case True
    from Remove_present [OF w sp True] obtain s' where
      "Remove k s = Some (Inr (True, s'))" "wf_map s' (ls @ tl rs)"
      "map_of (entries (heap s') (ls @ tl rs)) = (map_of (entries (heap s) as))(k := None)"
      "level s' \<le> level s"
      "level s' < level s \<longrightarrow> forward (heap s' (header s')) ! level s = None"
      "comparator s' = comparator s" "length_m s' = length_m s - 1" by blast
    then show ?thesis using split_lookup [OF sto sp] True
      by (intro exI [of _ True] exI [of _ s'] exI [of _ "ls @ tl rs"]) simp
  next
    case False
    from Remove_absent [OF w sp False] obtain u where
      r: "Remove k s = Some (Inr (False, s\<lparr>updateCache := u\<rparr>))" and lu: "length u = maxLevel s"
      by blast
    have "wf_map (s\<lparr>heap := heap s, updateCache := u\<rparr>) as" using w lu by (intro wf_cong) auto
    then have w': "wf_map (s\<lparr>updateCache := u\<rparr>) as" by simp
    have "map_of (entries (heap s) as) k = None" using split_lookup [OF sto sp] False by auto
    then show ?thesis using r w'
      by (intro exI [of _ False] exI [of _ "s\<lparr>updateCache := u\<rparr>"] exI [of _ as]) auto
  qed
qed

lemma run_wf:
  assumes "wf_map s as"
  shows "\<exists>s' as'. run ops s = Some (Inr s') \<and> wf_map s' as'
           \<and> map_of (entries (heap s') as') = spec_map ops (map_of (entries (heap s) as))
           \<and> comparator s' = comparator s"
  using assms
proof (induction ops arbitrary: s as)
  case Nil
  then show ?case by auto
next
  case (Cons x xs)
  show ?case
  proof (cases x)
    case (OpPut k v flips)
    from Put_wf [OF Cons.prems, of k v flips] obtain s1 as1 where
      1: "Put k v flips s = Some (Inr s1)" "wf_map s1 as1"
      "map_of (entries (heap s1) as1) = (map_of (entries (heap s) as))(k \<mapsto> v)"
      "comparator s1 = comparator s" by blast
    from Cons.IH [OF 1(2)] obtain s' as' where
      "run xs s1 = Some (Inr s')" "wf_map s' as'"
      "map_of (entries (heap s') as') = spec_map xs (map_of (entries (heap s1) as1))"
      "comparator s' = comparator s1" by blast
    then show ?thesis using 1 OpPut by (intro exI [of _ s'] exI [of _ as']) simp
  next
    case (OpRemove k)
    from Remove_wf [OF Cons.prems, of k] obtain b s1 as1 where
      1: "Remove k s = Some (Inr (b, s1))" "wf_map s1 as1"
      "map_of (entries (heap s1) as1) = (map_of (entries (heap s) as))(k := None)"
      "comparator s1 = comparator s" by blast
    from Cons.IH [OF 1(2)] obtain s' as' where
      "run xs s1 = Some (Inr s')" "wf_map s' as'"
      "map_of (entries (heap s') as') = spec_map xs (map_of (entries (heap s1) as1))"
      "comparator s' = comparator s1" by blast
    then show ?thesis using 1 OpRemove by (intro exI [of _ s'] exI [of _ as']) simp
  qed
qed

lemma reachable_wf:
  assumes "strict_total_order cmp"
  shows "\<exists>s as. run ops (NewWithComparator cmp zk zv) = Some (Inr s) \<and> wf_map s as
           \<and> map_of (entries (heap s) as) = spec_map ops Map.empty \<and> comparator s = cmp"
proof -
  from run_wf [OF New_wf [OF assms, of zk zv], of ops] show ?thesis
    by (simp add: entries_def) (simp add: NewWithComparator_def)
qed

lemma defaultComparator_sto: "strict_total_order (defaultComparator :: 'k::linorder \<Rightarrow> 'k \<Rightarrow> int)"
  by (auto simp: strict_total_order_def defaultComparator_def)

lemma wf_level0:
  assumes w: "wf_map s as"
  shows "linked (heap s) 0 (forward (heap s (header s)) ! 0) as"
proof -
  have "at_level (heap s) 0 as = as" using w by (intro at_level_0) (simp add: wf_map_def)
  then show ?thesis using wf_chain [OF w, of 0] w by (simp add: wf_map_def DefaultMaxLevel_def)
qed

lemma wf_sorted_keys:
  assumes w: "wf_map s as"
  shows "sorted_wrt (\<lambda>x y. comparator s x y < 0) (map (\<lambda>a. key (heap s a)) as)"
  using w by (simp add: wf_map_def sorted_wrt_map)

lemma sorted_keys_distinct:
  assumes sto: "strict_total_order cmp" and "sorted_wrt (\<lambda>x y. cmp x y < 0) ks"
  shows "distinct ks"
  using assms(2) sto_irrefl [OF sto] by (induction ks) auto

lemma range_loop_linked:
  "linked h 0 p xs \<Longrightarrow>
     range_loop h cmp e p acc
       = Some (Inr (acc @ map (\<lambda>a. val (h a)) (takeWhile (\<lambda>a. cmp (key (h a)) e \<le> 0) xs)))"
proof (induction xs arbitrary: p acc)
  case Nil
  then show ?case by (simp add: range_loop.simps [of h cmp e None acc])
next
  case (Cons x xs)
  then have p: "p = Some x" and hx: "0 < length (forward (h x))"
    and l: "linked h 0 (forward (h x) ! 0) xs" by (simp_all add: height_def)
  show ?case
    using Cons.IH [OF l, of "acc @ [val (h x)]"] p hx
    by (simp add: range_loop.simps [of h cmp e "Some x" acc])
qed

lemma rangefunc_loop_linked:
  "linked h 0 p xs \<Longrightarrow>
     rangefunc_loop h cmp e f p st
       = Some (Inr (visit f (entries h (takeWhile (\<lambda>a. cmp (key (h a)) e \<le> 0) xs)) st))"
proof (induction xs arbitrary: p st)
  case Nil
  then show ?case by (simp add: rangefunc_loop.simps [of h cmp e f None st] entries_def)
next
  case (Cons x xs)
  then have p: "p = Some x" and hx: "0 < length (forward (h x))"
    and l: "linked h 0 (forward (h x) ! 0) xs" by (simp_all add: height_def)
  show ?case
    using Cons.IH [OF l, of "snd (f (key (h x)) (val (h x)) st)"] p hx
    by (simp add: rangefunc_loop.simps [of h cmp e f "Some x" st] entries_def)
qed

lemma sto_le: "strict_total_order cmp \<Longrightarrow> (cmp a b \<le> 0) = (\<not> cmp b a < 0)"
  using sto_flip [of cmp b a] by auto

lemma sorted_takeWhile_le:
  assumes sto: "strict_total_order cmp"
    and srt: "sorted_wrt (\<lambda>a b. cmp (key (h a)) (key (h b)) < 0) xs"
  shows "takeWhile (\<lambda>a. cmp (key (h a)) e \<le> 0) xs = filter (\<lambda>a. cmp (key (h a)) e \<le> 0) xs"
  using srt
proof (induction xs)
  case Nil
  then show ?case by simp
next
  case (Cons x xs)
  show ?case
  proof (cases "cmp (key (h x)) e \<le> 0")
    case True
    then show ?thesis using Cons by simp
  next
    case False
    have "\<not> cmp (key (h b)) e \<le> 0" if "b \<in> set xs" for b
    proof -
      have 1: "cmp e (key (h x)) < 0" using False sto_le [OF sto] by auto
      have 2: "cmp (key (h x)) (key (h b)) < 0" using Cons.prems that by simp
      from sto_trans [OF sto 1 2] show ?thesis using sto_le [OF sto] by auto
    qed
    then show ?thesis using False by (simp add: filter_empty_conv)
  qed
qed

lemma range_nodes:
  assumes w: "wf_map s as" and sp: "split_at (heap s) (comparator s) start as ls rs"
  shows "takeWhile (\<lambda>a. comparator s (key (heap s a)) e \<le> 0) rs
         = filter (\<lambda>a. comparator s start (key (heap s a)) \<le> 0 \<and> comparator s (key (heap s a)) e \<le> 0) as"
proof -
  have sto: "strict_total_order (comparator s)" using w by (simp add: wf_map_def)
  have as: "as = ls @ rs" using sp by (simp add: split_at_def)
  have "sorted_wrt (\<lambda>a b. comparator s (key (heap s a)) (key (heap s b)) < 0) rs"
    using w as by (simp add: wf_map_def sorted_wrt_append)
  from sorted_takeWhile_le [OF sto this]
  have 1: "takeWhile (\<lambda>a. comparator s (key (heap s a)) e \<le> 0) rs
           = filter (\<lambda>a. comparator s (key (heap s a)) e \<le> 0) rs" .
  have 2: "filter (\<lambda>a. comparator s start (key (heap s a)) \<le> 0
                      \<and> comparator s (key (heap s a)) e \<le> 0) ls = []"
    using sp sto_le [OF sto] by (auto simp: split_at_def filter_empty_conv)
  have 3: "filter (\<lambda>a. comparator s start (key (heap s a)) \<le> 0
                      \<and> comparator s (key (heap s a)) e \<le> 0) rs
           = filter (\<lambda>a. comparator s (key (heap s a)) e \<le> 0) rs"
    using sp sto_le [OF sto] by (intro filter_cong) (auto simp: split_at_def)
  show ?thesis using 1 2 3 as by simp
qed

lemma wf_next_linked:
  assumes w: "wf_map s as" and sp: "split_at (heap s) (comparator s) k as ls rs"
  shows "linked (heap s) 0 (forward (heap s (last (header s # ls))) ! 0) rs"
proof -
  have as: "as = ls @ rs" using sp by (simp add: split_at_def)
  have "at_level (heap s) 0 as = as" using w by (intro at_level_0) (simp add: wf_map_def)
  then have l: "linked (heap s) 0 (forward (heap s (header s)) ! 0) (ls @ rs)"
    using wf_chain [OF w, of 0] w as by (simp add: wf_map_def DefaultMaxLevel_def)
  show ?thesis
  proof (cases ls rule: rev_cases)
    case Nil
    then show ?thesis using l by simp
  next
    case (snoc ls' x)
    then have "linked (heap s) 0 (forward (heap s (header s)) ! 0) (ls' @ x # rs)" using l by simp
    from chain_tail [OF this] show ?thesis using snoc by simp
  qed
qed

lemma Range_wf:
  assumes w: "wf_map s as"
  shows "Range_m start e s = Some (Inr (map (\<lambda>a. val (heap s a))
           (filter (\<lambda>a. comparator s start (key (heap s a)) \<le> 0
                      \<and> comparator s (key (heap s a)) e \<le> 0) as)))"
proof -
  from wf_split [OF w] obtain ls rs where sp: "split_at (heap s) (comparator s) start as ls rs"
    by blast
  show ?thesis
    unfolding Range_m_def
    using wf_descend [OF w sp] wf_next [OF w sp]
      range_loop_linked [OF wf_next_linked [OF w sp], of "comparator s" e "[]"]
      range_nodes [OF w sp, of e]
    by (simp add: index_def)
qed

lemma RangeFunc_wf:
  assumes w: "wf_map s as"
  shows "RangeFunc start e f st s = Some (Inr (visit f (entries (heap s)
           (filter (\<lambda>a. comparator s start (key (heap s a)) \<le> 0
                      \<and> comparator s (key (heap s a)) e \<le> 0) as)) st))"
proof -
  from wf_split [OF w] obtain ls rs where sp: "split_at (heap s) (comparator s) start as ls rs"
    by blast
  show ?thesis
    unfolding RangeFunc_def
    using wf_descend [OF w sp] wf_next [OF w sp]
      rangefunc_loop_linked [OF wf_next_linked [OF w sp], of "comparator s" e f st]
      range_nodes [OF w sp, of e]
    by (simp add: index_def)
qed

lemma Min_wf:
  assumes w: "wf_map s as"
  shows "Min_m s = Some (Inr (if as = [] then None
                              else Some (key (heap s (hd as)), val (heap s (hd as)))))
         \<and> (as \<noteq> [] \<longrightarrow> forward (heap s (header s)) ! 0 = Some (hd as))"
proof -
  have "at_level (heap s) 0 as = as" using w by (intro at_level_0) (simp add: wf_map_def)
  then have l: "linked (heap s) 0 (forward (heap s (header s)) ! 0) as"
    using wf_chain [OF w, of 0] w by (simp add: wf_map_def DefaultMaxLevel_def)
  have len: "length_m s = int (length as)" "0 < length (forward (heap s (header s)))"
    using w by (simp_all add: wf_map_def height_def DefaultMaxLevel_def)
  show ?thesis
  proof (cases as)
    case Nil
    then show ?thesis using len by (simp add: Min_m_def)
  next
    case (Cons a as')
    then show ?thesis using len l by (simp add: Min_m_def index_def deref_def)
  qed
qed

lemma Max_wf:
  assumes w: "wf_map s as"
  shows "Max_m s = Some (Inr (if as = [] then None
                              else Some (key (heap s (last as)), val (heap s (last as)))))"
proof -
  have len: "length_m s = int (length as)" using w by (simp add: wf_map_def)
  have lv: "\<forall>j \<le> level s. linked (heap s) j (forward (heap s (header s)) ! j) (at_level (heap s) j as)
              \<and> j < height (heap s) (header s)"
    using wf_chain [OF w] w by (simp add: wf_map_def)
  have "descend_last (heap s) (level s) (pred_at (heap s) (header s) as (Suc (level s)))
          = Some (Inr (pred_at (heap s) (header s) as 0))"
    using lv by (rule descend_last_levels)
  then have d: "descend_last (heap s) (level s) (header s) = Some (Inr (last (header s # as)))"
    using wf_pred_top [OF w, of as "Suc (level s)"] wf_pred_0 [OF w, of as] by simp
  show ?thesis
  proof (cases "as = []")
    case True
    then show ?thesis using len by (simp add: Max_m_def)
  next
    case False
    then show ?thesis using len d by (simp add: Max_m_def)
  qed
qed

lemma wf_keys_distinct:
  assumes w: "wf_map s as"
  shows "distinct (map fst (entries (heap s) as))"
proof -
  have sto: "strict_total_order (comparator s)" using w by (simp add: wf_map_def)
  have "sorted_wrt (\<lambda>x y. comparator s x y < 0) (map (\<lambda>a. key (heap s a)) as)"
    using w by (simp add: wf_map_def sorted_wrt_map)
  moreover have "map fst (entries (heap s) as) = map (\<lambda>a. key (heap s a)) as"
    by (simp add: entries_def)
  ultimately show ?thesis using sto_irrefl [OF sto]
    by (metis (no_types, lifting) distinct_conv_nth sorted_wrt_iff_nth_less linorder_neqE_nat)
qed

lemma wf_entries_set:
  assumes w: "wf_map s as"
  shows "((k, v) \<in> set (entries (heap s) as)) = (map_of (entries (heap s) as) k = Some v)"
  using wf_keys_distinct [OF w] by simp

lemma wf_card:
  assumes w: "wf_map s as"
  shows "length_m s = int (card (dom (map_of (entries (heap s) as))))"
proof -
  have "card (dom (map_of (entries (heap s) as))) = card (set (map fst (entries (heap s) as)))"
    by (simp add: dom_map_of_conv_image_fst)
  also have "\<dots> = length (map fst (entries (heap s) as))"
    using wf_keys_distinct [OF w] by (rule distinct_card)
  finally show ?thesis using w by (simp add: wf_map_def entries_def)
qed

lemma queries_ignore_updateCache:
  "Get k (s\<lparr>updateCache := u\<rparr>) = Get k s"
  "Range_m a e (s\<lparr>updateCache := u\<rparr>) = Range_m a e s"
  "RangeFunc a e f st (s\<lparr>updateCache := u\<rparr>) = RangeFunc a e f st s"
  "Min_m (s\<lparr>updateCache := u\<rparr>) = Min_m s"
  "Max_m (s\<lparr>updateCache := u\<rparr>) = Max_m s"
  "Len (s\<lparr>updateCache := u\<rparr>) = Len s"
  "IsEmpty (s\<lparr>updateCache := u\<rparr>) = IsEmpty s"
  by (simp_all add: Get_def Range_m_def RangeFunc_def Min_m_def Max_m_def Len_def IsEmpty_def
        cong: if_cong)

lemma entries_filter:
  "entries h (filter (\<lambda>a. P (key (h a))) as) = filter (\<lambda>p. P (fst p)) (entries h as)"
  by (simp add: entries_def filter_map comp_def)

lemma wf_in_range:
  fixes s :: "('k, 'v) SkipMap" and start e :: 'k
  assumes w: "wf_map s as"
  defines "ps \<equiv> entries (heap s) (filter (\<lambda>a. comparator s start (key (heap s a)) \<le> 0
                      \<and> comparator s (key (heap s a)) e \<le> 0) as)"
  shows "sorted_wrt (\<lambda>p q. comparator s (fst p) (fst q) < 0) ps"
    and "set ps = {(k, v). map_of (entries (heap s) as) k = Some v
                     \<and> comparator s start k \<le> 0 \<and> comparator s k e \<le> 0}"
proof -
  have e: "ps = filter (\<lambda>p. comparator s start (fst p) \<le> 0 \<and> comparator s (fst p) e \<le> 0)
                  (entries (heap s) as)"
    unfolding ps_def by (rule entries_filter)
  have "sorted_wrt (\<lambda>p q. comparator s (fst p) (fst q) < 0) (entries (heap s) as)"
    using w by (simp add: wf_map_def entries_def sorted_wrt_map)
  then show "sorted_wrt (\<lambda>p q. comparator s (fst p) (fst q) < 0) ps"
    unfolding e by (rule sorted_wrt_filter)
  show "set ps = {(k, v). map_of (entries (heap s) as) k = Some v
                     \<and> comparator s start k \<le> 0 \<and> comparator s k e \<le> 0}"
    unfolding e using wf_entries_set [OF w] by auto
qed

lemma backwards_empty:
  assumes sto: "strict_total_order cmp" and gt: "cmp start e > 0"
  shows "\<not> (cmp start k \<le> 0 \<and> cmp k e \<le> 0)"
proof
  assume a: "cmp start k \<le> 0 \<and> cmp k e \<le> 0"
  have es: "cmp e start < 0" using gt sto_flip [OF sto] by simp
  show False
  proof (cases "cmp start k = 0")
    case True
    then have "start = k" using sto_eq [OF sto] by simp
    then show False using a gt by simp
  next
    case False
    then have sk: "cmp start k < 0" using a by simp
    from sto_trans [OF sto es sk] have "cmp e k < 0" .
    then show False using a sto_le [OF sto, of k e] by simp
  qed
qed

lemma visit_recording:
  "visit (\<lambda>k v calls. (g k v, calls @ [(k, v)])) ps acc
     = acc @ takeWhile (\<lambda>(k, v). g k v) ps @ take 1 (dropWhile (\<lambda>(k, v). g k v) ps)"
  by (induction ps arbitrary: acc) auto

lemma visit_recording_all:
  "visit (\<lambda>k v calls. (True, calls @ [(k, v)])) ps acc = acc @ ps"
  by (induction ps arbitrary: acc) auto

lemma visit_recording_keys:
  "visit (\<lambda>k v calls. (P k, calls @ [k])) ps acc
     = acc @ takeWhile P (map fst ps) @ take 1 (dropWhile P (map fst ps))"
  by (induction ps arbitrary: acc) auto

lemma visit_all:
  "\<forall>k v st. fst (f k v st) \<Longrightarrow> visit f ps st = fold (\<lambda>(k, v) st. snd (f k v st)) ps st"
  by (induction ps arbitrary: st) auto

lemma defaultComparator_less [simp]: "(defaultComparator a b < 0) = (a < b)"
  by (simp add: defaultComparator_def)

lemma defaultComparator_le [simp]: "(defaultComparator a b \<le> 0) = (a \<le> b)"
  by (auto simp: defaultComparator_def)

lemma sorted_keys_unique:
  fixes ks :: "int list"
  assumes "sorted_wrt (<) ks" and "set ks = {2..8}"
  shows "ks = [2, 3, 4, 5, 6, 7, 8]"
proof -
  have "sorted ks \<and> distinct ks" using assms(1) by (simp add: strict_sorted_iff)
  moreover have "sorted [2, 3, 4, 5, 6, 7, 8 :: int] \<and> distinct [2, 3, 4, 5, 6, 7, 8 :: int]"
    by simp
  moreover have "set [2, 3, 4, 5, 6, 7, 8 :: int] = {2..8}" by auto
  ultimately show ?thesis using assms(2) sorted_distinct_set_unique by metis
qed

lemma dom_spec_map_puts:
  "dom (spec_map (map (\<lambda>i. OpPut i (v i) (fl i)) xs) m) = dom m \<union> set xs"
  by (induction xs arbitrary: m) auto

lemma dom_ops_0_to_9: "dom (spec_map ops_0_to_9 Map.empty) = {0..9}"
  unfolding ops_0_to_9_def by (simp add: dom_spec_map_puts)

lemma wf_dom:
  assumes w: "wf_map s as"
  shows "dom (map_of (entries (heap s) as)) = (\<lambda>a. key (heap s a)) ` set as"
  by (auto simp: dom_map_of_conv_image_fst entries_def image_iff)

lemma wf_lookup_node:
  assumes w: "wf_map s as" and a: "a \<in> set as"
  shows "map_of (entries (heap s) as) (key (heap s a)) = Some (val (heap s a))"
proof -
  have "(key (heap s a), val (heap s a)) \<in> set (entries (heap s) as)"
    using a by (auto simp: entries_def)
  then show ?thesis using wf_entries_set [OF w] by simp
qed

lemma wf_hd_least:
  assumes w: "wf_map s as" and a: "a \<in> set as"
  shows "comparator s (key (heap s (hd as))) (key (heap s a)) \<le> 0"
proof -
  have sto: "strict_total_order (comparator s)" using w by (simp add: wf_map_def)
  have srt: "sorted_wrt (\<lambda>a b. comparator s (key (heap s a)) (key (heap s b)) < 0) as"
    using w by (simp add: wf_map_def)
  from a obtain x xs where as: "as = x # xs" by (cases as) auto
  show ?thesis
  proof (cases "a = x")
    case True
    then show ?thesis using as sto_eq [OF sto, of "key (heap s x)" "key (heap s x)"] by simp
  next
    case False
    then have "a \<in> set xs" using a as by simp
    then show ?thesis using srt as by fastforce
  qed
qed

lemma wf_last_greatest:
  assumes w: "wf_map s as" and a: "a \<in> set as"
  shows "comparator s (key (heap s a)) (key (heap s (last as))) \<le> 0"
proof -
  have sto: "strict_total_order (comparator s)" using w by (simp add: wf_map_def)
  have srt: "sorted_wrt (\<lambda>a b. comparator s (key (heap s a)) (key (heap s b)) < 0) as"
    using w by (simp add: wf_map_def)
  from a obtain xs x where as: "as = xs @ [x]" by (cases as rule: rev_cases) auto
  show ?thesis
  proof (cases "a = x")
    case True
    then show ?thesis using as sto_eq [OF sto, of "key (heap s x)" "key (heap s x)"] by simp
  next
    case False
    then have "a \<in> set xs" using a as by simp
    then show ?thesis using srt as by (fastforce simp: sorted_wrt_append)
  qed
qed

lemma count_wf:
  assumes "wf_map s as"
  shows "\<exists>s'. run ops s = Some (Inr s')
           \<and> length_m s' = length_m s + int (fresh_puts ops s) - int (length (removed_keys ops s))"
  using assms
proof (induction ops arbitrary: s as)
  case Nil
  then show ?case by simp
next
  case (Cons x xs)
  show ?case
  proof (cases x)
    case (OpPut k v flips)
    from Put_wf [OF Cons.prems, of k v flips] obtain s1 as1 where
      1: "Put k v flips s = Some (Inr s1)" "wf_map s1 as1"
      "length_m s1 = (if map_of (entries (heap s) as) k = None then length_m s + 1 else length_m s)"
      by blast
    have g: "(Get k s = Some (Inr None)) = (map_of (entries (heap s) as) k = None)"
      using Get_wf [OF Cons.prems, of k] by simp
    from Cons.IH [OF 1(2)] obtain s' where
      "run xs s1 = Some (Inr s')"
      "length_m s' = length_m s1 + int (fresh_puts xs s1) - int (length (removed_keys xs s1))"
      by blast
    then show ?thesis using 1 g OpPut by (intro exI [of _ s']) simp
  next
    case (OpRemove k)
    from Remove_wf [OF Cons.prems, of k] obtain b s1 as1 where
      1: "Remove k s = Some (Inr (b, s1))" "wf_map s1 as1"
      "length_m s1 = (if b then length_m s - 1 else length_m s)" by blast
    from Cons.IH [OF 1(2)] obtain s' where
      "run xs s1 = Some (Inr s')"
      "length_m s' = length_m s1 + int (fresh_puts xs s1) - int (length (removed_keys xs s1))"
      by blast
    then show ?thesis using 1 OpRemove by (intro exI [of _ s']) simp
  qed
qed

lemma wf_above_level:
  assumes w: "wf_map s as" and i: "level s < i" "i < maxLevel s"
  shows "forward (heap s (header s)) ! i = None"
proof -
  have "\<forall>a \<in> set as. height (heap s) a \<le> i" using w i by (fastforce simp: wf_map_def)
  then have "at_level (heap s) i as = []" by (rule at_level_empty)
  then show ?thesis using wf_chain [OF w i(2)] by simp
qed

lemma wf_top_nonempty:
  assumes w: "wf_map s as" and ne: "as \<noteq> []"
  shows "forward (heap s (header s)) ! level s \<noteq> None"
proof (cases "level s = 0")
  case True
  then show ?thesis using wf_level0 [OF w] ne chain_nonempty by fastforce
next
  case False
  then show ?thesis using w by (simp add: wf_map_def)
qed

lemma wf_empty_level:
  assumes w: "wf_map s []"
  shows "level s = 0 \<and> forward (heap s (header s)) ! 0 = None"
proof -
  have "linked (heap s) (level s) (forward (heap s (header s)) ! level s) (at_level (heap s) (level s) [])"
    using w by (intro wf_chain) (simp_all add: wf_map_def)
  then have "forward (heap s (header s)) ! level s = None" by (simp add: at_level_def)
  then have "level s = 0" using w by (auto simp: wf_map_def)
  then show ?thesis using wf_level0 [OF w] by simp
qed

section \<open>The claims\<close>

text \<open>
  C1. For every sequence of Put and Remove operations on a map built with a comparator
  that is a strict total order, the operations all return, and in the state they leave
  the level-0 forward chain from the header visits nodes whose keys are strictly
  increasing under the comparator, with no duplicates; at every level \<open>i\<close> up to
  \<open>level\<close> the chain of level-\<open>i\<close> forward links is a subsequence of the level-0
  chain (and so strictly increasing as well).
\<close>

theorem C1_ordering_invariant:
  assumes "strict_total_order cmp"
  shows "\<exists>s as. run ops (NewWithComparator cmp zk zv) = Some (Inr s)
           \<and> linked (heap s) 0 (forward (heap s (header s)) ! 0) as
           \<and> sorted_wrt (\<lambda>x y. cmp x y < 0) (map (\<lambda>a. key (heap s a)) as)
           \<and> distinct (map (\<lambda>a. key (heap s a)) as)
           \<and> (\<forall>i \<le> level s. \<exists>bs. linked (heap s) i (forward (heap s (header s)) ! i) bs
                  \<and> subseq bs as
                  \<and> sorted_wrt (\<lambda>x y. cmp x y < 0) (map (\<lambda>a. key (heap s a)) bs))"
proof -
  from reachable_wf [OF assms, of ops zk zv] obtain s as where
    r: "run ops (NewWithComparator cmp zk zv) = Some (Inr s)" and w: "wf_map s as"
    and c: "comparator s = cmp" by blast
  have srt: "sorted_wrt (\<lambda>x y. cmp x y < 0) (map (\<lambda>a. key (heap s a)) as)"
    using wf_sorted_keys [OF w] c by simp
  have lv: "\<exists>bs. linked (heap s) i (forward (heap s (header s)) ! i) bs \<and> subseq bs as
              \<and> sorted_wrt (\<lambda>x y. cmp x y < 0) (map (\<lambda>a. key (heap s a)) bs)"
    if "i \<le> level s" for i
  proof -
    have "i < maxLevel s" using that w by (simp add: wf_map_def)
    then have "linked (heap s) i (forward (heap s (header s)) ! i) (at_level (heap s) i as)"
      by (rule wf_chain [OF w])
    moreover have "subseq (at_level (heap s) i as) as" by (simp add: at_level_def)
    moreover have "sorted_wrt (\<lambda>x y. cmp x y < 0) (map (\<lambda>a. key (heap s a)) (at_level (heap s) i as))"
      using srt by (simp add: at_level_def sorted_wrt_map sorted_wrt_filter)
    ultimately show ?thesis by blast
  qed
  show ?thesis
    using r wf_level0 [OF w] srt sorted_keys_distinct [OF assms srt] lv by blast
qed

theorem C1_ordering_invariant_witness:
  "strict_total_order (defaultComparator :: int \<Rightarrow> int \<Rightarrow> int)
   \<and> (\<exists>s as. run [OpPut 3 ''c'' (\<lambda>n. n < 2), OpPut 1 ''a'' (\<lambda>n. False), OpRemove 3,
                    OpPut 2 ''b'' (\<lambda>n. n < 1)]
               (NewWithComparator defaultComparator (0::int) '''') = Some (Inr s)
           \<and> linked (heap s) 0 (forward (heap s (header s)) ! 0) as
           \<and> sorted_wrt (\<lambda>x y. defaultComparator x y < 0) (map (\<lambda>a. key (heap s a)) as)
           \<and> distinct (map (\<lambda>a. key (heap s a)) as)
           \<and> (\<forall>i \<le> level s. \<exists>bs. linked (heap s) i (forward (heap s (header s)) ! i) bs
                  \<and> subseq bs as
                  \<and> sorted_wrt (\<lambda>x y. defaultComparator x y < 0) (map (\<lambda>a. key (heap s a)) bs)))"
  using C1_ordering_invariant [OF defaultComparator_sto,
      of "[OpPut 3 ''c'' (\<lambda>n. n < 2), OpPut 1 ''a'' (\<lambda>n. False), OpRemove 3,
           OpPut 2 ''b'' (\<lambda>n. n < 1)]" "0::int" "''''"]
    defaultComparator_sto
  by blast

text \<open>
  C2. After any sequence of operations, Put(k, v1) followed by Put(k, v2) both return;
  then Get(k) returns (v2, true) and Len() is what it was before the second Put. The
  second Put changes no forward link and no key, allocates no node and leaves
  \<open>level\<close> as it was. The same holds for one Put on any key that the specification's
  map already holds.
\<close>

theorem C2_put_overwrite:
  assumes "strict_total_order cmp"
  shows "\<exists>s s1 s2. run ops (NewWithComparator cmp zk zv) = Some (Inr s)
           \<and> Put k v1 f1 s = Some (Inr s1) \<and> Put k v2 f2 s1 = Some (Inr s2)
           \<and> Get k s2 = Some (Inr (Some v2)) \<and> Len s2 = Len s1
           \<and> level s2 = level s1 \<and> fresh s2 = fresh s1
           \<and> (\<forall>a. forward (heap s2 a) = forward (heap s1 a) \<and> key (heap s2 a) = key (heap s1 a))
           \<and> (spec_map ops Map.empty k \<noteq> None \<longrightarrow>
                (\<exists>s'. Put k v2 f2 s = Some (Inr s') \<and> Get k s' = Some (Inr (Some v2))
                   \<and> Len s' = Len s \<and> level s' = level s \<and> fresh s' = fresh s
                   \<and> (\<forall>a. forward (heap s' a) = forward (heap s a)
                          \<and> key (heap s' a) = key (heap s a))))"
proof -
  from reachable_wf [OF assms, of ops zk zv] obtain s as where
    r: "run ops (NewWithComparator cmp zk zv) = Some (Inr s)" and w: "wf_map s as"
    and m: "map_of (entries (heap s) as) = spec_map ops Map.empty" by blast
  from Put_wf [OF w, of k v1 f1] obtain s1 as1 where
    p1: "Put k v1 f1 s = Some (Inr s1)" and w1: "wf_map s1 as1"
    and m1: "map_of (entries (heap s1) as1) = (map_of (entries (heap s) as))(k \<mapsto> v1)" by blast
  from Put_wf [OF w1, of k v2 f2] obtain s2 as2 where
    p2: "Put k v2 f2 s1 = Some (Inr s2)" and w2: "wf_map s2 as2"
    and m2: "map_of (entries (heap s2) as2) = (map_of (entries (heap s1) as1))(k \<mapsto> v2)"
    and l2: "length_m s2 = (if map_of (entries (heap s1) as1) k = None
                            then length_m s1 + 1 else length_m s1)"
    and st2: "map_of (entries (heap s1) as1) k \<noteq> None \<longrightarrow>
                level s2 = level s1 \<and> fresh s2 = fresh s1
                \<and> (\<forall>a. forward (heap s2 a) = forward (heap s1 a) \<and> key (heap s2 a) = key (heap s1 a))"
    by blast
  have pres: "map_of (entries (heap s1) as1) k \<noteq> None" using m1 by simp
  have g2: "Get k s2 = Some (Inr (Some v2))" using Get_wf [OF w2, of k] m2 by simp
  have gen: "\<exists>s'. Put k v2 f2 s = Some (Inr s') \<and> Get k s' = Some (Inr (Some v2))
                   \<and> Len s' = Len s \<and> level s' = level s \<and> fresh s' = fresh s
                   \<and> (\<forall>a. forward (heap s' a) = forward (heap s a) \<and> key (heap s' a) = key (heap s a))"
    if "spec_map ops Map.empty k \<noteq> None"
  proof -
    from Put_wf [OF w, of k v2 f2] obtain s' as' where
      p: "Put k v2 f2 s = Some (Inr s')" and w': "wf_map s' as'"
      and m': "map_of (entries (heap s') as') = (map_of (entries (heap s) as))(k \<mapsto> v2)"
      and l': "length_m s' = (if map_of (entries (heap s) as) k = None
                              then length_m s + 1 else length_m s)"
      and st': "map_of (entries (heap s) as) k \<noteq> None \<longrightarrow>
                level s' = level s \<and> fresh s' = fresh s
                \<and> (\<forall>a. forward (heap s' a) = forward (heap s a) \<and> key (heap s' a) = key (heap s a))"
      by blast
    have "Get k s' = Some (Inr (Some v2))" using Get_wf [OF w', of k] m' by simp
    then show ?thesis using p l' st' that m by (intro exI [of _ s']) (simp add: Len_def)
  qed
  show ?thesis
    using r p1 p2 g2 l2 st2 pres gen
    by (intro exI [of _ s] exI [of _ s1] exI [of _ s2]) (simp add: Len_def)
qed

theorem C2_put_overwrite_witness:
  "strict_total_order (defaultComparator :: int \<Rightarrow> int \<Rightarrow> int)
   \<and> spec_map [OpPut 7 ''x'' (\<lambda>n. n < 3), OpPut 4 ''y'' (\<lambda>n. False)] Map.empty (7::int) \<noteq> None
   \<and> (\<exists>s s1 s2. run [OpPut 7 ''x'' (\<lambda>n. n < 3), OpPut 4 ''y'' (\<lambda>n. False)]
                    (NewWithComparator defaultComparator (0::int) '''') = Some (Inr s)
           \<and> Put 7 ''a'' (\<lambda>n. True) s = Some (Inr s1) \<and> Put 7 ''b'' (\<lambda>n. False) s1 = Some (Inr s2)
           \<and> Get 7 s2 = Some (Inr (Some ''b'')) \<and> Len s2 = Len s1
           \<and> (\<exists>s'. Put 7 ''b'' (\<lambda>n. False) s = Some (Inr s') \<and> Get 7 s' = Some (Inr (Some ''b''))
                   \<and> Len s' = Len s \<and> level s' = level s))"
proof -
  have p: "spec_map [OpPut 7 ''x'' (\<lambda>n. n < 3), OpPut 4 ''y'' (\<lambda>n. False)] Map.empty (7::int) \<noteq> None"
    by simp
  from C2_put_overwrite [OF defaultComparator_sto,
      of "[OpPut 7 ''x'' (\<lambda>n. n < 3), OpPut 4 ''y'' (\<lambda>n. False)]" "0::int" "''''"
         7 "''a''" "\<lambda>n. True" "''b''" "\<lambda>n. False"] p
  show ?thesis using defaultComparator_sto by blast
qed

text \<open>
  C3. After any sequence of operations, Remove(k) returns, and it returns true exactly
  when the key is in the map. If the key is absent, the state is the one before except
  for the contents of the scratch buffer \<open>updateCache\<close>, and Len, IsEmpty, Get of
  every key, Range, RangeFunc, Min and Max give the results they gave before. If the
  key is present, Len is one less, Get(k) now reports not-found, and Get of every other
  key gives the result it gave before.
\<close>

theorem C3_remove:
  assumes "strict_total_order cmp"
  shows "\<exists>s b s'. run ops (NewWithComparator cmp zk zv) = Some (Inr s)
           \<and> Remove k s = Some (Inr (b, s'))
           \<and> Get k s = Some (Inr (spec_map ops Map.empty k))
           \<and> b = (spec_map ops Map.empty k \<noteq> None)
           \<and> (\<not> b \<longrightarrow>
                (\<exists>u. s' = s\<lparr>updateCache := u\<rparr>) \<and> Len s' = Len s \<and> IsEmpty s' = IsEmpty s
                \<and> (\<forall>k'. Get k' s' = Get k' s)
                \<and> (\<forall>a e. Range_m a e s' = Range_m a e s)
                \<and> (\<forall>a e f (st :: 'st). RangeFunc a e f st s' = RangeFunc a e f st s)
                \<and> Min_m s' = Min_m s \<and> Max_m s' = Max_m s)
           \<and> (b \<longrightarrow>
                Len s' = Len s - 1 \<and> Get k s' = Some (Inr None)
                \<and> (\<forall>k'. k' \<noteq> k \<longrightarrow> Get k' s' = Get k' s))"
proof -
  from reachable_wf [OF assms, of ops zk zv] obtain s as where
    r: "run ops (NewWithComparator cmp zk zv) = Some (Inr s)" and w: "wf_map s as"
    and m: "map_of (entries (heap s) as) = spec_map ops Map.empty" by blast
  from Remove_wf [OF w, of k] obtain b s' as' where
    rm: "Remove k s = Some (Inr (b, s'))" and w': "wf_map s' as'"
    and m': "map_of (entries (heap s') as') = (map_of (entries (heap s) as))(k := None)"
    and b: "b = (map_of (entries (heap s) as) k \<noteq> None)"
    and nb: "\<not> b \<longrightarrow> as' = as \<and> (\<exists>u. s' = s\<lparr>updateCache := u\<rparr>)"
    and l: "length_m s' = (if b then length_m s - 1 else length_m s)" by blast
  have g: "Get k s = Some (Inr (spec_map ops Map.empty k))" using Get_wf [OF w, of k] m by simp
  have absent: "(\<exists>u. s' = s\<lparr>updateCache := u\<rparr>) \<and> Len s' = Len s \<and> IsEmpty s' = IsEmpty s
                \<and> (\<forall>k'. Get k' s' = Get k' s)
                \<and> (\<forall>a e. Range_m a e s' = Range_m a e s)
                \<and> (\<forall>a e f (st :: 'st). RangeFunc a e f st s' = RangeFunc a e f st s)
                \<and> Min_m s' = Min_m s \<and> Max_m s' = Max_m s" if "\<not> b"
  proof -
    from nb that obtain u where "s' = s\<lparr>updateCache := u\<rparr>" by blast
    then show ?thesis by (auto simp: queries_ignore_updateCache)
  qed
  have present: "Len s' = Len s - 1 \<and> Get k s' = Some (Inr None)
                \<and> (\<forall>k'. k' \<noteq> k \<longrightarrow> Get k' s' = Get k' s)" if "b"
    using that l Get_wf [OF w'] Get_wf [OF w] m' by (simp add: Len_def)
  show ?thesis
    using r rm g b m absent present
    by (intro exI [of _ s] exI [of _ b] exI [of _ s']) simp
qed

theorem C3_remove_witness:
  "strict_total_order (defaultComparator :: int \<Rightarrow> int \<Rightarrow> int)
   \<and> (\<exists>s s'. run [OpPut 7 ''x'' (\<lambda>n. n < 3), OpPut 4 ''y'' (\<lambda>n. False)]
                 (NewWithComparator defaultComparator (0::int) '''') = Some (Inr s)
           \<and> Remove 7 s = Some (Inr (True, s'))
           \<and> Len s' = Len s - 1 \<and> Get 7 s' = Some (Inr None) \<and> Get 4 s' = Get 4 s)
   \<and> (\<exists>s s'. run [OpPut 7 ''x'' (\<lambda>n. n < 3), OpPut 4 ''y'' (\<lambda>n. False)]
                 (NewWithComparator defaultComparator (0::int) '''') = Some (Inr s)
           \<and> Remove 5 s = Some (Inr (False, s'))
           \<and> Len s' = Len s \<and> Get 7 s' = Get 7 s \<and> Min_m s' = Min_m s)"
proof -
  have p: "spec_map [OpPut 7 ''x'' (\<lambda>n. n < 3), OpPut 4 ''y'' (\<lambda>n. False)] Map.empty (7::int) \<noteq> None"
    "spec_map [OpPut 7 ''x'' (\<lambda>n. n < 3), OpPut 4 ''y'' (\<lambda>n. False)] Map.empty (5::int) = None"
    by simp_all
  from C3_remove [OF defaultComparator_sto,
      of "[OpPut 7 ''x'' (\<lambda>n. n < 3), OpPut 4 ''y'' (\<lambda>n. False)]" "0::int" "''''" 7] p(1)
  have 1: "\<exists>s s'. run [OpPut 7 ''x'' (\<lambda>n. n < 3), OpPut 4 ''y'' (\<lambda>n. False)]
                 (NewWithComparator defaultComparator (0::int) '''') = Some (Inr s)
           \<and> Remove 7 s = Some (Inr (True, s'))
           \<and> Len s' = Len s - 1 \<and> Get 7 s' = Some (Inr None) \<and> Get 4 s' = Get 4 s"
    by fastforce
  from C3_remove [OF defaultComparator_sto,
      of "[OpPut 7 ''x'' (\<lambda>n. n < 3), OpPut 4 ''y'' (\<lambda>n. False)]" "0::int" "''''" 5] p(2)
  have 2: "\<exists>s s'. run [OpPut 7 ''x'' (\<lambda>n. n < 3), OpPut 4 ''y'' (\<lambda>n. False)]
                 (NewWithComparator defaultComparator (0::int) '''') = Some (Inr s)
           \<and> Remove 5 s = Some (Inr (False, s'))
           \<and> Len s' = Len s \<and> Get 7 s' = Get 7 s \<and> Min_m s' = Min_m s"
    by fastforce
  show ?thesis using 1 2 defaultComparator_sto by blast
qed

text \<open>
  C4. After any sequence of operations, Range(start, end) returns the values of a list
  of key/value pairs that is strictly ascending in the keys and holds exactly the
  pairs of the map whose key \<open>k\<close> satisfies start \<open>\<le>\<close> k \<open>\<le>\<close> end under the
  comparator. The result is empty when no key is in the range, and whenever start is
  greater than end.
\<close>

theorem C4_range:
  assumes "strict_total_order cmp"
  shows "\<exists>s ps. run ops (NewWithComparator cmp zk zv) = Some (Inr s)
           \<and> Range_m start e s = Some (Inr (map snd ps))
           \<and> sorted_wrt (\<lambda>p q. cmp (fst p) (fst q) < 0) ps
           \<and> set ps = {(k, v). spec_map ops Map.empty k = Some v \<and> cmp start k \<le> 0 \<and> cmp k e \<le> 0}
           \<and> ({k. spec_map ops Map.empty k \<noteq> None \<and> cmp start k \<le> 0 \<and> cmp k e \<le> 0} = {}
                  \<longrightarrow> Range_m start e s = Some (Inr []))
           \<and> (cmp start e > 0 \<longrightarrow> Range_m start e s = Some (Inr []))"
proof -
  from reachable_wf [OF assms, of ops zk zv] obtain s as where
    r: "run ops (NewWithComparator cmp zk zv) = Some (Inr s)" and w: "wf_map s as"
    and m: "map_of (entries (heap s) as) = spec_map ops Map.empty"
    and c: "comparator s = cmp" by blast
  define ps where "ps = entries (heap s) (filter (\<lambda>a. comparator s start (key (heap s a)) \<le> 0
                      \<and> comparator s (key (heap s a)) e \<le> 0) as)"
  have rg: "Range_m start e s = Some (Inr (map snd ps))"
    using Range_wf [OF w, of start e] by (simp add: ps_def entries_def comp_def)
  have srt: "sorted_wrt (\<lambda>p q. cmp (fst p) (fst q) < 0) ps"
    using wf_in_range(1) [OF w, of start e] c by (simp add: ps_def)
  have st: "set ps = {(k, v). spec_map ops Map.empty k = Some v \<and> cmp start k \<le> 0 \<and> cmp k e \<le> 0}"
    using wf_in_range(2) [OF w, of start e] c m by (simp add: ps_def)
  have nokeys: "Range_m start e s = Some (Inr [])"
    if "{k. spec_map ops Map.empty k \<noteq> None \<and> cmp start k \<le> 0 \<and> cmp k e \<le> 0} = {}"
  proof -
    have "set ps = {}" using st that by auto
    then show ?thesis using rg by simp
  qed
  have bw: "Range_m start e s = Some (Inr [])" if "cmp start e > 0"
  proof -
    have "set ps = {}" using st backwards_empty [OF assms that] by auto
    then show ?thesis using rg by simp
  qed
  show ?thesis using r rg srt st nokeys bw by blast
qed

theorem C4_range_witness:
  "strict_total_order (defaultComparator :: int \<Rightarrow> int \<Rightarrow> int)
   \<and> defaultComparator (3::int) 2 > 0
   \<and> {k. spec_map [OpPut 1 ''a'' (\<lambda>n. n < 1), OpPut 3 ''c'' (\<lambda>n. False), OpPut 2 ''b'' (\<lambda>n. n < 4)]
            Map.empty k \<noteq> None \<and> defaultComparator (5::int) k \<le> 0 \<and> defaultComparator k 10 \<le> 0} = {}
   \<and> (\<exists>s. run [OpPut 1 ''a'' (\<lambda>n. n < 1), OpPut 3 ''c'' (\<lambda>n. False), OpPut 2 ''b'' (\<lambda>n. n < 4)]
             (NewWithComparator defaultComparator (0::int) '''') = Some (Inr s)
           \<and> Range_m 3 2 s = Some (Inr []))
   \<and> (\<exists>s. run [OpPut 1 ''a'' (\<lambda>n. n < 1), OpPut 3 ''c'' (\<lambda>n. False), OpPut 2 ''b'' (\<lambda>n. n < 4)]
             (NewWithComparator defaultComparator (0::int) '''') = Some (Inr s)
           \<and> Range_m 5 10 s = Some (Inr []))
   \<and> bindO (run [OpPut 1 ''a'' (\<lambda>n. n < 1), OpPut 3 ''c'' (\<lambda>n. False), OpPut 2 ''b'' (\<lambda>n. n < 4)]
             (NewWithComparator defaultComparator (0::int) '''')) (Range_m 2 3)
       = Some (Inr [''b'', ''c''])"
proof -
  have g: "defaultComparator (3::int) 2 > 0" by (simp add: defaultComparator_def)
  have e: "{k. spec_map [OpPut 1 ''a'' (\<lambda>n. n < 1), OpPut 3 ''c'' (\<lambda>n. False), OpPut 2 ''b'' (\<lambda>n. n < 4)]
            Map.empty k \<noteq> None \<and> defaultComparator (5::int) k \<le> 0 \<and> defaultComparator k 10 \<le> 0} = {}"
    by auto
  have v: "bindO (run [OpPut 1 ''a'' (\<lambda>n. n < 1), OpPut 3 ''c'' (\<lambda>n. False), OpPut 2 ''b'' (\<lambda>n. n < 4)]
             (NewWithComparator defaultComparator (0::int) '''')) (Range_m 2 3)
       = Some (Inr [''b'', ''c''])"
    by code_simp
  from C4_range [OF defaultComparator_sto,
      of "[OpPut 1 ''a'' (\<lambda>n. n < 1), OpPut 3 ''c'' (\<lambda>n. False), OpPut 2 ''b'' (\<lambda>n. n < 4)]"
         "0::int" "''''" 3 2] g
  have 1: "\<exists>s. run [OpPut 1 ''a'' (\<lambda>n. n < 1), OpPut 3 ''c'' (\<lambda>n. False), OpPut 2 ''b'' (\<lambda>n. n < 4)]
             (NewWithComparator defaultComparator (0::int) '''') = Some (Inr s)
           \<and> Range_m 3 2 s = Some (Inr [])" by blast
  from C4_range [OF defaultComparator_sto,
      of "[OpPut 1 ''a'' (\<lambda>n. n < 1), OpPut 3 ''c'' (\<lambda>n. False), OpPut 2 ''b'' (\<lambda>n. n < 4)]"
         "0::int" "''''" 5 10] e
  have 2: "\<exists>s. run [OpPut 1 ''a'' (\<lambda>n. n < 1), OpPut 3 ''c'' (\<lambda>n. False), OpPut 2 ''b'' (\<lambda>n. n < 4)]
             (NewWithComparator defaultComparator (0::int) '''') = Some (Inr s)
           \<and> Range_m 5 10 s = Some (Inr [])" by blast
  show ?thesis using defaultComparator_sto g e 1 2 v by blast
qed

text \<open>
  C5. After any sequence of operations, RangeFunc(start, end, f) calls the visitor on
  the very pairs whose values Range(start, end) returns, in the same ascending order,
  until the visitor returns false: the visitor state it leaves is the one the
  specification's \<open>visit\<close> computes. A visitor that records its calls and always
  returns true records every in-range pair once, in order; one that returns \<open>g k v\<close>
  records the pairs up to and including the first on which \<open>g\<close> is false, and none
  after it. With the keys 0..9 in the map, RangeFunc(2, 8, f) with \<open>f\<close> false on key
  5 calls \<open>f\<close> on the keys 2, 3, 4, 5 and on no other.
\<close>

theorem C5_rangefunc:
  assumes "strict_total_order cmp"
  shows "(\<exists>s ps. run ops (NewWithComparator cmp zk zv) = Some (Inr s)
            \<and> Range_m start e s = Some (Inr (map snd ps))
            \<and> sorted_wrt (\<lambda>p q. cmp (fst p) (fst q) < 0) ps
            \<and> set ps = {(k, v). spec_map ops Map.empty k = Some v \<and> cmp start k \<le> 0 \<and> cmp k e \<le> 0}
            \<and> RangeFunc start e f st s = Some (Inr (visit f ps st))
            \<and> RangeFunc start e (\<lambda>k v calls. (True, calls @ [(k, v)])) [] s = Some (Inr ps)
            \<and> RangeFunc start e (\<lambda>k v calls. (g k v, calls @ [(k, v)])) [] s
                = Some (Inr (takeWhile (\<lambda>(k, v). g k v) ps @ take 1 (dropWhile (\<lambda>(k, v). g k v) ps))))
         \<and> (dom (spec_map ops' Map.empty) = {0..9} \<longrightarrow>
              (\<exists>s. run ops' (New (0::int) zv') = Some (Inr s)
                 \<and> RangeFunc 2 8 (\<lambda>k v calls. (k \<noteq> 5, calls @ [k])) [] s = Some (Inr [2, 3, 4, 5])))"
proof
  from reachable_wf [OF assms, of ops zk zv] obtain s as where
    r: "run ops (NewWithComparator cmp zk zv) = Some (Inr s)" and w: "wf_map s as"
    and m: "map_of (entries (heap s) as) = spec_map ops Map.empty"
    and c: "comparator s = cmp" by blast
  define ps where "ps = entries (heap s) (filter (\<lambda>a. comparator s start (key (heap s a)) \<le> 0
                      \<and> comparator s (key (heap s a)) e \<le> 0) as)"
  have rg: "Range_m start e s = Some (Inr (map snd ps))"
    using Range_wf [OF w, of start e] by (simp add: ps_def entries_def comp_def)
  have srt: "sorted_wrt (\<lambda>p q. cmp (fst p) (fst q) < 0) ps"
    using wf_in_range(1) [OF w, of start e] c by (simp add: ps_def)
  have st: "set ps = {(k, v). spec_map ops Map.empty k = Some v \<and> cmp start k \<le> 0 \<and> cmp k e \<le> 0}"
    using wf_in_range(2) [OF w, of start e] c m by (simp add: ps_def)
  have rf: "\<And>(f :: 'a \<Rightarrow> 'b \<Rightarrow> 'x \<Rightarrow> bool \<times> 'x) st.
              RangeFunc start e f st s = Some (Inr (visit f ps st))"
    using RangeFunc_wf [OF w, of start e] by (simp add: ps_def)
  have 1: "RangeFunc start e f st s = Some (Inr (visit f ps st))" by (rule rf)
  have 2: "RangeFunc start e (\<lambda>k v calls. (True, calls @ [(k, v)])) [] s = Some (Inr ps)"
    using RangeFunc_wf [OF w, of start e "\<lambda>k v calls. (True, calls @ [(k, v)])" "[]"]
      visit_recording_all [of ps "[]"] by (simp add: ps_def)
  have 3: "RangeFunc start e (\<lambda>k v calls. (g k v, calls @ [(k, v)])) [] s
                = Some (Inr (takeWhile (\<lambda>(k, v). g k v) ps @ take 1 (dropWhile (\<lambda>(k, v). g k v) ps)))"
    using RangeFunc_wf [OF w, of start e "\<lambda>k v calls. (g k v, calls @ [(k, v)])" "[]"]
      visit_recording [of g ps "[]"] by (simp add: ps_def)
  show "\<exists>s ps. run ops (NewWithComparator cmp zk zv) = Some (Inr s)
            \<and> Range_m start e s = Some (Inr (map snd ps))
            \<and> sorted_wrt (\<lambda>p q. cmp (fst p) (fst q) < 0) ps
            \<and> set ps = {(k, v). spec_map ops Map.empty k = Some v \<and> cmp start k \<le> 0 \<and> cmp k e \<le> 0}
            \<and> RangeFunc start e f st s = Some (Inr (visit f ps st))
            \<and> RangeFunc start e (\<lambda>k v calls. (True, calls @ [(k, v)])) [] s = Some (Inr ps)
            \<and> RangeFunc start e (\<lambda>k v calls. (g k v, calls @ [(k, v)])) [] s
                = Some (Inr (takeWhile (\<lambda>(k, v). g k v) ps @ take 1 (dropWhile (\<lambda>(k, v). g k v) ps)))"
    using r rg srt st 1 2 3 by blast
next
  show "dom (spec_map ops' Map.empty) = {0..9} \<longrightarrow>
              (\<exists>s. run ops' (New (0::int) zv') = Some (Inr s)
                 \<and> RangeFunc 2 8 (\<lambda>k v calls. (k \<noteq> 5, calls @ [k])) [] s = Some (Inr [2, 3, 4, 5]))"
  proof
    assume d: "dom (spec_map ops' Map.empty) = {0..9::int}"
    from reachable_wf [OF defaultComparator_sto, of ops' "0::int" zv'] obtain s as where
      r: "run ops' (New (0::int) zv') = Some (Inr s)" and w: "wf_map s as"
      and m: "map_of (entries (heap s) as) = spec_map ops' Map.empty"
      and c: "comparator s = defaultComparator" by (auto simp: New_def)
    define ps where "ps = entries (heap s) (filter (\<lambda>a. comparator s 2 (key (heap s a)) \<le> 0
                      \<and> comparator s (key (heap s a)) 8 \<le> 0) as)"
    have srt: "sorted_wrt (<) (map fst ps)"
      using wf_in_range(1) [OF w, of 2 8] c by (simp add: ps_def sorted_wrt_map)
    have "set ps = {(k, v). spec_map ops' Map.empty k = Some v \<and> 2 \<le> k \<and> k \<le> 8}"
      using wf_in_range(2) [OF w, of 2 8] c m by (simp add: ps_def)
    then have "set (map fst ps) = {k. k \<in> dom (spec_map ops' Map.empty) \<and> 2 \<le> k \<and> k \<le> 8}"
      by (auto simp: dom_def image_iff)
    then have "set (map fst ps) = {2..8}" using d by auto
    from sorted_keys_unique [OF srt this] have ks: "map fst ps = [2, 3, 4, 5, 6, 7, 8]" .
    have "RangeFunc 2 8 (\<lambda>k v calls. (k \<noteq> 5, calls @ [k])) [] s = Some (Inr [2, 3, 4, 5])"
      using RangeFunc_wf [OF w, of 2 8 "\<lambda>k v calls. (k \<noteq> 5, calls @ [k])" "[]"]
        visit_recording_keys [of "\<lambda>k. k \<noteq> 5" ps "[]"] ks
      by (simp add: ps_def)
    then show "\<exists>s. run ops' (New (0::int) zv') = Some (Inr s)
                 \<and> RangeFunc 2 8 (\<lambda>k v calls. (k \<noteq> 5, calls @ [k])) [] s = Some (Inr [2, 3, 4, 5])"
      using r by blast
  qed
qed

theorem C5_rangefunc_witness:
  "strict_total_order (defaultComparator :: int \<Rightarrow> int \<Rightarrow> int)
   \<and> dom (spec_map ops_0_to_9 Map.empty) = {0..9}
   \<and> (\<exists>s. run ops_0_to_9 (New (0::int) '''') = Some (Inr s)
         \<and> RangeFunc 2 8 (\<lambda>k v calls. (k \<noteq> 5, calls @ [k])) [] s = Some (Inr [2, 3, 4, 5]))
   \<and> bindO (run ops_0_to_9 (New (0::int) ''''))
        (RangeFunc 2 8 (\<lambda>k v calls. (k \<noteq> 5, calls @ [k])) []) = Some (Inr [2, 3, 4, 5])
   \<and> bindO (run ops_0_to_9 (New (0::int) ''''))
        (RangeFunc 2 5 (\<lambda>k v calls. (True, calls @ [k])) []) = Some (Inr [2, 3, 4, 5])"
proof -
  have v: "bindO (run ops_0_to_9 (New (0::int) ''''))
        (RangeFunc 2 8 (\<lambda>k v calls. (k \<noteq> 5, calls @ [k])) []) = Some (Inr [2, 3, 4, 5])"
    "bindO (run ops_0_to_9 (New (0::int) ''''))
        (RangeFunc 2 5 (\<lambda>k v calls. (True, calls @ [k])) []) = Some (Inr [2, 3, 4, 5])"
    by code_simp+
  from C5_rangefunc [OF defaultComparator_sto, of "[]" "0::int" "''''" 0 0 "\<lambda>k v st. (True, st)" "()"
      "\<lambda>k v. True" ops_0_to_9 "''''"] dom_ops_0_to_9
  have "\<exists>s. run ops_0_to_9 (New (0::int) '''') = Some (Inr s)
         \<and> RangeFunc 2 8 (\<lambda>k v calls. (k \<noteq> 5, calls @ [k])) [] s = Some (Inr [2, 3, 4, 5])"
    by blast
  then show ?thesis using defaultComparator_sto dom_ops_0_to_9 v by blast
qed

text \<open>
  C6. After any sequence of operations, Min() and Max() report not-found exactly when
  Len() is 0, which is exactly when the map is empty. On a non-empty map Min() returns
  the key and value of the header's level-0 forward target, this key is in the map with
  this value and no key of the map is less; Max() returns the key and value of the last
  node of the level-0 chain, this key is in the map with this value and no key of the
  map is greater.
\<close>

theorem C6_min_max:
  assumes "strict_total_order cmp"
  shows "\<exists>s. run ops (NewWithComparator cmp zk zv) = Some (Inr s)
           \<and> ((Min_m s = Some (Inr None)) = (Len s = 0))
           \<and> ((Max_m s = Some (Inr None)) = (Len s = 0))
           \<and> ((Len s = 0) = (spec_map ops Map.empty = Map.empty))
           \<and> (Len s \<noteq> 0 \<longrightarrow>
                (\<exists>a as. forward (heap s (header s)) ! 0 = Some a
                   \<and> Min_m s = Some (Inr (Some (key (heap s a), val (heap s a))))
                   \<and> spec_map ops Map.empty (key (heap s a)) = Some (val (heap s a))
                   \<and> (\<forall>k \<in> dom (spec_map ops Map.empty). cmp (key (heap s a)) k \<le> 0)
                   \<and> linked (heap s) 0 (forward (heap s (header s)) ! 0) as \<and> as \<noteq> []
                   \<and> Max_m s = Some (Inr (Some (key (heap s (last as)), val (heap s (last as)))))
                   \<and> spec_map ops Map.empty (key (heap s (last as))) = Some (val (heap s (last as)))
                   \<and> (\<forall>k \<in> dom (spec_map ops Map.empty). cmp k (key (heap s (last as))) \<le> 0)))"
proof -
  from reachable_wf [OF assms, of ops zk zv] obtain s as where
    r: "run ops (NewWithComparator cmp zk zv) = Some (Inr s)" and w: "wf_map s as"
    and m: "map_of (entries (heap s) as) = spec_map ops Map.empty"
    and c: "comparator s = cmp" by blast
  have len: "(Len s = 0) = (as = [])" using w by (simp add: Len_def wf_map_def)
  have mn: "(Min_m s = Some (Inr None)) = (Len s = 0)" using Min_wf [OF w] len by simp
  have mx: "(Max_m s = Some (Inr None)) = (Len s = 0)" using Max_wf [OF w] len by simp
  have em: "(Len s = 0) = (spec_map ops Map.empty = Map.empty)"
  proof -
    have "(dom (spec_map ops Map.empty) = {}) = (as = [])"
      using wf_dom [OF w] m by simp
    then show ?thesis using len by simp
  qed
  have ne: "\<exists>a as. forward (heap s (header s)) ! 0 = Some a
                   \<and> Min_m s = Some (Inr (Some (key (heap s a), val (heap s a))))
                   \<and> spec_map ops Map.empty (key (heap s a)) = Some (val (heap s a))
                   \<and> (\<forall>k \<in> dom (spec_map ops Map.empty). cmp (key (heap s a)) k \<le> 0)
                   \<and> linked (heap s) 0 (forward (heap s (header s)) ! 0) as \<and> as \<noteq> []
                   \<and> Max_m s = Some (Inr (Some (key (heap s (last as)), val (heap s (last as)))))
                   \<and> spec_map ops Map.empty (key (heap s (last as))) = Some (val (heap s (last as)))
                   \<and> (\<forall>k \<in> dom (spec_map ops Map.empty). cmp k (key (heap s (last as))) \<le> 0)"
    if "Len s \<noteq> 0"
  proof -
    have ne: "as \<noteq> []" using that len by simp
    then have h: "hd as \<in> set as" and l: "last as \<in> set as" by simp_all
    have 1: "forward (heap s (header s)) ! 0 = Some (hd as)"
      "Min_m s = Some (Inr (Some (key (heap s (hd as)), val (heap s (hd as)))))"
      using Min_wf [OF w] ne by simp_all
    have 2: "spec_map ops Map.empty (key (heap s (hd as))) = Some (val (heap s (hd as)))"
      using wf_lookup_node [OF w h] m by simp
    have 3: "\<forall>k \<in> dom (spec_map ops Map.empty). cmp (key (heap s (hd as))) k \<le> 0"
      using wf_dom [OF w] m wf_hd_least [OF w] c by auto
    have 4: "Max_m s = Some (Inr (Some (key (heap s (last as)), val (heap s (last as)))))"
      using Max_wf [OF w] ne by simp
    have 5: "spec_map ops Map.empty (key (heap s (last as))) = Some (val (heap s (last as)))"
      using wf_lookup_node [OF w l] m by simp
    have 6: "\<forall>k \<in> dom (spec_map ops Map.empty). cmp k (key (heap s (last as))) \<le> 0"
      using wf_dom [OF w] m wf_last_greatest [OF w] c by auto
    show ?thesis using 1 2 3 4 5 6 ne wf_level0 [OF w] by blast
  qed
  show ?thesis using r mn mx em ne by blast
qed

theorem C6_min_max_witness:
  "strict_total_order (defaultComparator :: int \<Rightarrow> int \<Rightarrow> int)
   \<and> (\<exists>s. run [OpPut 5 ''five'' (\<lambda>n. n < 2), OpPut 1 ''one'' (\<lambda>n. False), OpPut 10 ''ten'' (\<lambda>n. n < 1)]
             (NewWithComparator defaultComparator (0::int) '''') = Some (Inr s)
         \<and> Len s \<noteq> 0
         \<and> (\<exists>a as. forward (heap s (header s)) ! 0 = Some a
               \<and> Min_m s = Some (Inr (Some (key (heap s a), val (heap s a))))
               \<and> (\<forall>k \<in> dom (spec_map [OpPut 5 ''five'' (\<lambda>n. n < 2), OpPut 1 ''one'' (\<lambda>n. False),
                                       OpPut 10 ''ten'' (\<lambda>n. n < 1)] Map.empty).
                      defaultComparator (key (heap s a)) k \<le> 0)
               \<and> linked (heap s) 0 (forward (heap s (header s)) ! 0) as \<and> as \<noteq> []
               \<and> Max_m s = Some (Inr (Some (key (heap s (last as)), val (heap s (last as)))))))
   \<and> bindO (run [OpPut 5 ''five'' (\<lambda>n. n < 2), OpPut 1 ''one'' (\<lambda>n. False), OpPut 10 ''ten'' (\<lambda>n. n < 1)]
             (NewWithComparator defaultComparator (0::int) '''')) Min_m = Some (Inr (Some (1, ''one'')))
   \<and> bindO (run [OpPut 5 ''five'' (\<lambda>n. n < 2), OpPut 1 ''one'' (\<lambda>n. False), OpPut 10 ''ten'' (\<lambda>n. n < 1)]
             (NewWithComparator defaultComparator (0::int) '''')) Max_m = Some (Inr (Some (10, ''ten'')))
   \<and> Min_m (NewWithComparator defaultComparator (0::int) (''''::string)) = Some (Inr None)
   \<and> Max_m (NewWithComparator defaultComparator (0::int) (''''::string)) = Some (Inr None)"
proof -
  have v: "bindO (run [OpPut 5 ''five'' (\<lambda>n. n < 2), OpPut 1 ''one'' (\<lambda>n. False), OpPut 10 ''ten'' (\<lambda>n. n < 1)]
             (NewWithComparator defaultComparator (0::int) '''')) Min_m = Some (Inr (Some (1, ''one'')))"
    "bindO (run [OpPut 5 ''five'' (\<lambda>n. n < 2), OpPut 1 ''one'' (\<lambda>n. False), OpPut 10 ''ten'' (\<lambda>n. n < 1)]
             (NewWithComparator defaultComparator (0::int) '''')) Max_m = Some (Inr (Some (10, ''ten'')))"
    "Min_m (NewWithComparator defaultComparator (0::int) (''''::string)) = Some (Inr None)"
    "Max_m (NewWithComparator defaultComparator (0::int) (''''::string)) = Some (Inr None)"
    by code_simp+
  have ne: "spec_map [OpPut 5 ''five'' (\<lambda>n. n < 2), OpPut 1 ''one'' (\<lambda>n. False),
                      OpPut 10 ''ten'' (\<lambda>n. n < 1)] Map.empty \<noteq> (Map.empty :: int \<rightharpoonup> string)"
    by simp
  from C6_min_max [OF defaultComparator_sto,
      of "[OpPut 5 ''five'' (\<lambda>n. n < 2), OpPut 1 ''one'' (\<lambda>n. False), OpPut 10 ''ten'' (\<lambda>n. n < 1)]"
         "0::int" "''''"]
  obtain s where
    r: "run [OpPut 5 ''five'' (\<lambda>n. n < 2), OpPut 1 ''one'' (\<lambda>n. False), OpPut 10 ''ten'' (\<lambda>n. n < 1)]
             (NewWithComparator defaultComparator (0::int) '''') = Some (Inr s)"
    and e: "(Len s = 0) = (spec_map [OpPut 5 ''five'' (\<lambda>n. n < 2), OpPut 1 ''one'' (\<lambda>n. False),
                      OpPut 10 ''ten'' (\<lambda>n. n < 1)] Map.empty = (Map.empty :: int \<rightharpoonup> string))"
    and i: "Len s \<noteq> 0 \<longrightarrow>
                (\<exists>a as. forward (heap s (header s)) ! 0 = Some a
                   \<and> Min_m s = Some (Inr (Some (key (heap s a), val (heap s a))))
                   \<and> spec_map [OpPut 5 ''five'' (\<lambda>n. n < 2), OpPut 1 ''one'' (\<lambda>n. False),
                      OpPut 10 ''ten'' (\<lambda>n. n < 1)] Map.empty (key (heap s a)) = Some (val (heap s a))
                   \<and> (\<forall>k \<in> dom (spec_map [OpPut 5 ''five'' (\<lambda>n. n < 2), OpPut 1 ''one'' (\<lambda>n. False),
                      OpPut 10 ''ten'' (\<lambda>n. n < 1)] Map.empty). defaultComparator (key (heap s a)) k \<le> 0)
                   \<and> linked (heap s) 0 (forward (heap s (header s)) ! 0) as \<and> as \<noteq> []
                   \<and> Max_m s = Some (Inr (Some (key (heap s (last as)), val (heap s (last as)))))
                   \<and> spec_map [OpPut 5 ''five'' (\<lambda>n. n < 2), OpPut 1 ''one'' (\<lambda>n. False),
                      OpPut 10 ''ten'' (\<lambda>n. n < 1)] Map.empty (key (heap s (last as))) = Some (val (heap s (last as)))
                   \<and> (\<forall>k \<in> dom (spec_map [OpPut 5 ''five'' (\<lambda>n. n < 2), OpPut 1 ''one'' (\<lambda>n. False),
                      OpPut 10 ''ten'' (\<lambda>n. n < 1)] Map.empty). defaultComparator k (key (heap s (last as))) \<le> 0))"
    by blast
  have l: "Len s \<noteq> 0" using e ne by simp
  with i r have "\<exists>s. run [OpPut 5 ''five'' (\<lambda>n. n < 2), OpPut 1 ''one'' (\<lambda>n. False), OpPut 10 ''ten'' (\<lambda>n. n < 1)]
             (NewWithComparator defaultComparator (0::int) '''') = Some (Inr s)
         \<and> Len s \<noteq> 0
         \<and> (\<exists>a as. forward (heap s (header s)) ! 0 = Some a
               \<and> Min_m s = Some (Inr (Some (key (heap s a), val (heap s a))))
               \<and> (\<forall>k \<in> dom (spec_map [OpPut 5 ''five'' (\<lambda>n. n < 2), OpPut 1 ''one'' (\<lambda>n. False),
                                       OpPut 10 ''ten'' (\<lambda>n. n < 1)] Map.empty).
                      defaultComparator (key (heap s a)) k \<le> 0)
               \<and> linked (heap s) 0 (forward (heap s (header s)) ! 0) as \<and> as \<noteq> []
               \<and> Max_m s = Some (Inr (Some (key (heap s (last as)), val (heap s (last as))))))"
    by blast
  then show ?thesis using defaultComparator_sto v by blast
qed

text \<open>
  C7, as stated: Len() equals the number of distinct keys ever passed to Put minus the
  number of distinct keys successfully removed. It fails for Put(1), Remove(1), Put(1):
  one distinct key was put and one distinct key was removed, yet Len() is 1.
\<close>

theorem C7_count_counterexample:
  "len_after [OpPut 1 ''a'' tails, OpRemove 1, OpPut 1 ''b'' tails] (New (0::int) '''') = Some (Inr 1)
   \<and> int (card (set (put_keys [OpPut (1::int) ''a'' tails, OpRemove 1, OpPut 1 ''b'' tails])))
       - int (card (set (removed_keys [OpPut 1 ''a'' tails, OpRemove 1, OpPut 1 ''b'' tails]
                           (New (0::int) '''')))) = 0"
  by code_simp

text \<open>
  C7, amended: after every sequence of operations, Len() equals the number of Put calls
  on a key that was absent at the call minus the number of Remove calls that returned
  true; this is the number of distinct keys in the map, and the number of nodes
  reachable at level 0.
\<close>

theorem C7_count:
  assumes "strict_total_order cmp"
  shows "\<exists>s as. run ops (NewWithComparator cmp zk zv) = Some (Inr s)
           \<and> Len s = int (fresh_puts ops (NewWithComparator cmp zk zv))
                      - int (length (removed_keys ops (NewWithComparator cmp zk zv)))
           \<and> Len s = int (card (dom (spec_map ops Map.empty)))
           \<and> linked (heap s) 0 (forward (heap s (header s)) ! 0) as
           \<and> Len s = int (length as)"
proof -
  from reachable_wf [OF assms, of ops zk zv] obtain s as where
    r: "run ops (NewWithComparator cmp zk zv) = Some (Inr s)" and w: "wf_map s as"
    and m: "map_of (entries (heap s) as) = spec_map ops Map.empty" by blast
  from count_wf [OF New_wf [OF assms, of zk zv], of ops] r
  have 1: "Len s = int (fresh_puts ops (NewWithComparator cmp zk zv))
                      - int (length (removed_keys ops (NewWithComparator cmp zk zv)))"
    by (auto simp: Len_def) (simp add: NewWithComparator_def)
  have 2: "Len s = int (card (dom (spec_map ops Map.empty)))"
    using wf_card [OF w] m by (simp add: Len_def)
  have 3: "Len s = int (length as)" using w by (simp add: Len_def wf_map_def)
  show ?thesis using r 1 2 3 wf_level0 [OF w] by blast
qed

theorem C7_count_witness:
  "strict_total_order (defaultComparator :: int \<Rightarrow> int \<Rightarrow> int)
   \<and> (\<exists>s as. run [OpPut 1 ''a'' tails, OpRemove 1, OpPut 1 ''b'' tails]
                 (NewWithComparator defaultComparator (0::int) '''') = Some (Inr s)
         \<and> Len s = int (fresh_puts [OpPut 1 ''a'' tails, OpRemove 1, OpPut 1 ''b'' tails]
                            (NewWithComparator defaultComparator (0::int) ''''))
                    - int (length (removed_keys [OpPut 1 ''a'' tails, OpRemove 1, OpPut 1 ''b'' tails]
                                     (NewWithComparator defaultComparator (0::int) '''')))
         \<and> Len s = int (card (dom (spec_map [OpPut (1::int) ''a'' tails, OpRemove 1, OpPut 1 ''b'' tails]
                                      Map.empty)))
         \<and> linked (heap s) 0 (forward (heap s (header s)) ! 0) as
         \<and> Len s = int (length as))
   \<and> int (fresh_puts [OpPut 1 ''a'' tails, OpRemove 1, OpPut 1 ''b'' tails]
                            (NewWithComparator defaultComparator (0::int) ''''))
        - int (length (removed_keys [OpPut 1 ''a'' tails, OpRemove 1, OpPut 1 ''b'' tails]
                                     (NewWithComparator defaultComparator (0::int) ''''))) = 1"
proof -
  have v: "int (fresh_puts [OpPut 1 ''a'' tails, OpRemove 1, OpPut 1 ''b'' tails]
                            (NewWithComparator defaultComparator (0::int) ''''))
        - int (length (removed_keys [OpPut 1 ''a'' tails, OpRemove 1, OpPut 1 ''b'' tails]
                                     (NewWithComparator defaultComparator (0::int) ''''))) = 1"
    by code_simp
  show ?thesis
    using C7_count [OF defaultComparator_sto,
        of "[OpPut 1 ''a'' tails, OpRemove 1, OpPut 1 ''b'' tails]" "0::int" "''''"]
      defaultComparator_sto v
    by blast
qed

text \<open>
  C8, as stated: in every reachable state, the freshly constructed empty map included,
  \<open>level\<close> is the highest index at which the header's forward reference is non-null.
  In the fresh map \<open>level\<close> is 0 and the header's forward reference at index 0 is nil.
\<close>

theorem C8_level_counterexample:
  "\<not> level_is_top (New (0::int) (''''::string))
   \<and> level (New (0::int) (''''::string)) = 0
   \<and> forward (heap (New (0::int) (''''::string)) (header (New (0::int) (''''::string)))) ! 0 = None"
  by (simp add: level_is_top_def New_def NewWithComparator_def DefaultMaxLevel_def)

text \<open>
  C8, amended: after every sequence of operations the header's forward references above
  \<open>level\<close> are nil; when the map is non-empty, \<open>level\<close> is the highest index at
  which the header's forward reference is non-null; when it is empty, \<open>level\<close> is 0
  and the header's forward reference at 0 is nil. Put never lowers \<open>level\<close>. Remove
  lowers it only when it returns true and the header's forward reference at the old
  \<open>level\<close>, non-null before, is nil after the unlinking.
\<close>

theorem C8_level:
  assumes "strict_total_order cmp"
  shows "\<exists>s. run ops (NewWithComparator cmp zk zv) = Some (Inr s)
           \<and> (\<forall>i. level s < i \<and> i < maxLevel s \<longrightarrow> forward (heap s (header s)) ! i = None)
           \<and> (Len s \<noteq> 0 \<longrightarrow> level_is_top s)
           \<and> (Len s = 0 \<longrightarrow> level s = 0 \<and> forward (heap s (header s)) ! 0 = None)
           \<and> (\<exists>s1. Put k v flips s = Some (Inr s1) \<and> level s \<le> level s1)
           \<and> (\<exists>b s2. Remove k' s = Some (Inr (b, s2)) \<and> level s2 \<le> level s
                 \<and> (level s2 < level s \<longrightarrow>
                       b \<and> forward (heap s (header s)) ! level s \<noteq> None
                         \<and> forward (heap s2 (header s2)) ! level s = None))"
proof -
  from reachable_wf [OF assms, of ops zk zv] obtain s as where
    r: "run ops (NewWithComparator cmp zk zv) = Some (Inr s)" and w: "wf_map s as" by blast
  have len: "(Len s = 0) = (as = [])" using w by (simp add: Len_def wf_map_def)
  have 1: "\<forall>i. level s < i \<and> i < maxLevel s \<longrightarrow> forward (heap s (header s)) ! i = None"
    using wf_above_level [OF w] by blast
  have 2: "Len s \<noteq> 0 \<longrightarrow> level_is_top s"
    using 1 wf_top_nonempty [OF w] len by (simp add: level_is_top_def)
  have 3: "Len s = 0 \<longrightarrow> level s = 0 \<and> forward (heap s (header s)) ! 0 = None"
    using wf_empty_level [of s] w len by auto
  from Put_wf [OF w, of k v flips] have 4: "\<exists>s1. Put k v flips s = Some (Inr s1) \<and> level s \<le> level s1"
    by blast
  from Remove_wf [OF w, of k'] obtain b s2 where
    rm: "Remove k' s = Some (Inr (b, s2))" and le: "level s2 \<le> level s"
    and lt: "level s2 < level s \<longrightarrow> b \<and> forward (heap s2 (header s2)) ! level s = None" by blast
  have "level s2 < level s \<longrightarrow> forward (heap s (header s)) ! level s \<noteq> None"
    using w by (auto simp: wf_map_def)
  with rm le lt have 5: "\<exists>b s2. Remove k' s = Some (Inr (b, s2)) \<and> level s2 \<le> level s
                 \<and> (level s2 < level s \<longrightarrow>
                       b \<and> forward (heap s (header s)) ! level s \<noteq> None
                         \<and> forward (heap s2 (header s2)) ! level s = None)" by blast
  show ?thesis using r 1 2 3 4 5 by blast
qed

theorem C8_level_witness:
  "strict_total_order (defaultComparator :: int \<Rightarrow> int \<Rightarrow> int)
   \<and> (\<exists>s. run [OpPut 1 ''a'' (\<lambda>n. n < 3)] (NewWithComparator defaultComparator (0::int) '''')
             = Some (Inr s)
         \<and> Len s \<noteq> 0 \<and> level_is_top s \<and> level s = 3
         \<and> (\<exists>s1. Put 2 ''b'' (\<lambda>n. False) s = Some (Inr s1) \<and> level s \<le> level s1)
         \<and> (\<exists>b s2. Remove 1 s = Some (Inr (b, s2)) \<and> level s2 < level s
               \<and> b \<and> forward (heap s (header s)) ! level s \<noteq> None
               \<and> forward (heap s2 (header s2)) ! level s = None
               \<and> Len s2 = 0 \<and> level s2 = 0))"
proof -
  have v: "bindO (run [OpPut 1 ''a'' (\<lambda>n. n < 3)] (NewWithComparator defaultComparator (0::int) ''''))
             (\<lambda>s. bindO (Remove 1 s) (\<lambda>r. Some (Inr (Len s, level s, Len (snd r), level (snd r)))))
           = Some (Inr (1, 3, 0, 0))"
    by code_simp
  from C8_level [OF defaultComparator_sto, of "[OpPut 1 ''a'' (\<lambda>n. n < 3)]" "0::int" "''''"
      2 "''b''" "\<lambda>n. False" 1]
  obtain s b s2 where
    r: "run [OpPut 1 ''a'' (\<lambda>n. n < 3)] (NewWithComparator defaultComparator (0::int) '''')
          = Some (Inr s)"
    and t: "Len s \<noteq> 0 \<longrightarrow> level_is_top s"
    and p: "\<exists>s1. Put 2 ''b'' (\<lambda>n. False) s = Some (Inr s1) \<and> level s \<le> level s1"
    and rm: "Remove 1 s = Some (Inr (b, s2))"
    and lt: "level s2 < level s \<longrightarrow>
               b \<and> forward (heap s (header s)) ! level s \<noteq> None
                 \<and> forward (heap s2 (header s2)) ! level s = None"
    by blast
  from v r rm have e: "Len s = 1" "level s = 3" "Len s2 = 0" "level s2 = 0" by simp_all
  show ?thesis using defaultComparator_sto r t p rm lt e by auto
qed

text \<open>
  C9. For every sequence of coin-flip outcomes randomLevel returns a value in
  [0, maxLevel - 1], and maxLevel is 32. After any sequence of operations (which all
  return, none panics) the header's forward slice and the scratch buffer have length
  maxLevel, every node of the list has a forward slice of length at least 1 and at most
  maxLevel, and Put, Get, Remove, Range, RangeFunc, Min and Max each return without an
  index out of range or a nil dereference.
\<close>

theorem C9_no_panic:
  assumes "strict_total_order cmp"
  shows "\<exists>s as. run ops (NewWithComparator cmp zk zv) = Some (Inr s)
           \<and> maxLevel s = 32
           \<and> (\<forall>fl. randomLevel s fl \<le> maxLevel s - 1)
           \<and> length (forward (heap s (header s))) = maxLevel s
           \<and> length (updateCache s) = maxLevel s
           \<and> linked (heap s) 0 (forward (heap s (header s)) ! 0) as
           \<and> (\<forall>a \<in> set as. 1 \<le> length (forward (heap s a))
                             \<and> length (forward (heap s a)) \<le> maxLevel s)
           \<and> (\<exists>s'. Put k v flips s = Some (Inr s'))
           \<and> (\<exists>r. Get k s = Some (Inr r))
           \<and> (\<exists>r. Remove k s = Some (Inr r))
           \<and> (\<exists>r. Range_m start e s = Some (Inr r))
           \<and> (\<exists>r. RangeFunc start e f st s = Some (Inr r))
           \<and> (\<exists>r. Min_m s = Some (Inr r))
           \<and> (\<exists>r. Max_m s = Some (Inr r))"
proof -
  from reachable_wf [OF assms, of ops zk zv] obtain s as where
    r: "run ops (NewWithComparator cmp zk zv) = Some (Inr s)" and w: "wf_map s as" by blast
  have 1: "maxLevel s = 32" using w by (simp add: wf_map_def DefaultMaxLevel_def)
  have 2: "\<forall>fl. randomLevel s fl \<le> maxLevel s - 1"
  proof
    fix fl
    have "randomLevel s fl < maxLevel s" using 1 by (intro randomLevel_bound) simp
    then show "randomLevel s fl \<le> maxLevel s - 1" by simp
  qed
  have 3: "length (forward (heap s (header s))) = maxLevel s" "length (updateCache s) = maxLevel s"
    using w by (simp_all add: wf_map_def height_def)
  have 4: "\<forall>a \<in> set as. 1 \<le> length (forward (heap s a)) \<and> length (forward (heap s a)) \<le> maxLevel s"
  proof
    fix a assume a: "a \<in> set as"
    have "0 < height (heap s) a \<and> height (heap s) a \<le> level s + 1" using w a by (simp add: wf_map_def)
    moreover have "level s < maxLevel s" using w by (simp add: wf_map_def)
    ultimately show "1 \<le> length (forward (heap s a)) \<and> length (forward (heap s a)) \<le> maxLevel s"
      unfolding height_def by linarith
  qed
  from Put_wf [OF w, of k v flips] have 5: "\<exists>s'. Put k v flips s = Some (Inr s')" by blast
  from Remove_wf [OF w, of k] have 6: "\<exists>r. Remove k s = Some (Inr r)" by blast
  show ?thesis
    using r 1 2 3 4 5 6 wf_level0 [OF w] Get_wf [OF w, of k] Range_wf [OF w, of start e]
      RangeFunc_wf [OF w, of start e f st] Min_wf [OF w] Max_wf [OF w]
    by (intro exI [of _ s] exI [of _ as]) simp
qed

theorem C9_no_panic_witness:
  "strict_total_order (defaultComparator :: int \<Rightarrow> int \<Rightarrow> int)
   \<and> (\<exists>s as. run [OpPut 5 ''five'' (\<lambda>n. True), OpPut 1 ''one'' (\<lambda>n. False), OpRemove 5]
                 (NewWithComparator defaultComparator (0::int) '''') = Some (Inr s)
         \<and> maxLevel s = 32
         \<and> (\<forall>fl. randomLevel s fl \<le> maxLevel s - 1)
         \<and> linked (heap s) 0 (forward (heap s (header s)) ! 0) as
         \<and> (\<forall>a \<in> set as. 1 \<le> length (forward (heap s a))
                             \<and> length (forward (heap s a)) \<le> maxLevel s)
         \<and> (\<exists>s'. Put 9 ''nine'' (\<lambda>n. True) s = Some (Inr s'))
         \<and> (\<exists>r. Max_m s = Some (Inr r)))
   \<and> randomLevel (NewWithComparator defaultComparator (0::int) (''''::string)) (\<lambda>n. True) = 31
   \<and> bindO (run [OpPut 5 ''five'' (\<lambda>n. True), OpPut 1 ''one'' (\<lambda>n. False), OpRemove 5]
                 (NewWithComparator defaultComparator (0::int) ''''))
        (\<lambda>s. bindO (Put 9 ''nine'' (\<lambda>n. True) s) Max_m) = Some (Inr (Some (9, ''nine'')))"
proof -
  have v: "randomLevel (NewWithComparator defaultComparator (0::int) (''''::string)) (\<lambda>n. True) = 31"
    "bindO (run [OpPut 5 ''five'' (\<lambda>n. True), OpPut 1 ''one'' (\<lambda>n. False), OpRemove 5]
                 (NewWithComparator defaultComparator (0::int) ''''))
        (\<lambda>s. bindO (Put 9 ''nine'' (\<lambda>n. True) s) Max_m) = Some (Inr (Some (9, ''nine'')))"
    by code_simp+
  from C9_no_panic [OF defaultComparator_sto,
      of "[OpPut 5 ''five'' (\<lambda>n. True), OpPut 1 ''one'' (\<lambda>n. False), OpRemove 5]" "0::int" "''''"
         9 "''nine''" "\<lambda>n. True" 0 0 "\<lambda>k v st. (True, st)" "()"]
  have "\<exists>s as. run [OpPut 5 ''five'' (\<lambda>n. True), OpPut 1 ''one'' (\<lambda>n. False), OpRemove 5]
                 (NewWithComparator defaultComparator (0::int) '''') = Some (Inr s)
         \<and> maxLevel s = 32
         \<and> (\<forall>fl. randomLevel s fl \<le> maxLevel s - 1)
         \<and> linked (heap s) 0 (forward (heap s (header s)) ! 0) as
         \<and> (\<forall>a \<in> set as. 1 \<le> length (forward (heap s a))
                             \<and> length (forward (heap s a)) \<le> maxLevel s)
         \<and> (\<exists>s'. Put 9 ''nine'' (\<lambda>n. True) s = Some (Inr s'))
         \<and> (\<exists>r. Max_m s = Some (Inr r))"
    by blast
  then show ?thesis using defaultComparator_sto v by blast
qed

end
